theory Spec2Isabelle
  imports Main
begin

section \<open>Set operations (operations.ts)\<close>

text \<open>
  The union type \<open>LiveSetOp<T>\<close> with its five variants, and \<open>apply\<close>, the transition
  function of the set. An Immutable.js \<open>Set<T>\<close> is a HOL set of values of \<open>T\<close>: two
  values are the same member when \<open>Immutable.is\<close> holds of them, and the type that stands
  for \<open>T\<close> has exactly this as its equality (see \<open>jsval\<close> below, where an array or an
  object carries its identity).
\<close>

datatype 'a LiveSetOp =
    Add 'a
  | Remove 'a
  | Clear
  | AddAll "'a list"
  | ReplaceAll "'a list"

fun apply_op :: "'a set \<Rightarrow> 'a LiveSetOp \<Rightarrow> 'a set" where
  "apply_op s (Add v) = insert v s"
| "apply_op s (Remove v) = s - {v}"
| "apply_op s Clear = {}"
| "apply_op s (AddAll vs) = s \<union> set vs"
| "apply_op s (ReplaceAll vs) = set vs"

text \<open>The values an operation carries.\<close>

fun valuesOf :: "'a LiveSetOp \<Rightarrow> 'a list" where
  "valuesOf (Add v) = [v]"
| "valuesOf (Remove v) = [v]"
| "valuesOf Clear = []"
| "valuesOf (AddAll vs) = vs"
| "valuesOf (ReplaceAll vs) = vs"

section \<open>JavaScript values and JSON\<close>

text \<open>
  An array or an object is a reference: it has an identity, and \<open>===\<close> and \<open>Immutable.is\<close>
  compare two of them by identity, not by content. The identity is \<open>App n\<close> for one the
  application built, \<open>Parsed n\<close> for the \<open>n\<close>-th one \<open>JSON.parse\<close> built in this process,
  and \<open>Lit\<close> for a literal of the library's own code (an operation, a wrapper, an
  action, the array of a seed), none of which is ever a member of the set. With that,
  HOL equality on \<open>jsval\<close> is \<open>Immutable.is\<close>: by value on \<open>undefined\<close>, \<open>null\<close>, booleans,
  numbers and strings, by identity on arrays and objects.

  Numbers are integers here (fractions, NaN and the infinities are left out). An object
  is the list of its own properties, each key once.
\<close>

datatype ref = Lit | App nat | Parsed nat

datatype jsval =
    JUndefined
  | JNull
  | JBool bool
  | JNum int
  | JStr string
  | JArr ref "jsval list"
  | JObj ref "(string \<times> jsval) list"

definition isPrimitive :: "jsval \<Rightarrow> bool" where
  "isPrimitive v = (case v of JArr r xs \<Rightarrow> False | JObj r kvs \<Rightarrow> False | _ \<Rightarrow> True)"

text \<open>\<open>val[key]\<close>: the own property, \<open>undefined\<close> when there is none.\<close>

fun getField :: "jsval \<Rightarrow> string \<Rightarrow> jsval" where
  "getField (JObj r kvs) k = (case map_of kvs k of None \<Rightarrow> JUndefined | Some v \<Rightarrow> v)"
| "getField v k = JUndefined"

text \<open>
  A JSON text, by its syntax tree. \<open>JSON.stringify\<close> writes a value as a text: identities
  are not written, a property whose value is \<open>undefined\<close> is left out, an \<open>undefined\<close>
  array element is written \<open>null\<close>, and for \<open>undefined\<close> itself no text is produced
  (\<open>None\<close>). The text of an object is taken with each key once, as \<open>JSON.stringify\<close>
  writes it.
\<close>

datatype json =
    TNull
  | TBool bool
  | TNum int
  | TStr string
  | TArr "json list"
  | TObj "(string \<times> json) list"

fun JSON_stringify :: "jsval \<Rightarrow> json option" where
  "JSON_stringify JUndefined = None"
| "JSON_stringify JNull = Some TNull"
| "JSON_stringify (JBool b) = Some (TBool b)"
| "JSON_stringify (JNum n) = Some (TNum n)"
| "JSON_stringify (JStr s) = Some (TStr s)"
| "JSON_stringify (JArr r xs) =
     Some (TArr (map (\<lambda>x. case JSON_stringify x of None \<Rightarrow> TNull | Some t \<Rightarrow> t) xs))"
| "JSON_stringify (JObj r kvs) =
     Some (TObj (concat (map (\<lambda>(k, v). case JSON_stringify v of None \<Rightarrow> []
                                          | Some t \<Rightarrow> [(k, t)]) kvs)))"

text \<open>
  \<open>JSON.parse\<close> builds a value from a text; every array and object in it is new. The
  number \<open>n\<close> counts the arrays and objects built so far, and comes back increased.
\<close>

fun build :: "json \<Rightarrow> nat \<Rightarrow> jsval \<times> nat"
  and buildAll :: "json list \<Rightarrow> nat \<Rightarrow> jsval list \<times> nat"
  and buildFields :: "(string \<times> json) list \<Rightarrow> nat \<Rightarrow> (string \<times> jsval) list \<times> nat"
where
  "build TNull n = (JNull, n)"
| "build (TBool b) n = (JBool b, n)"
| "build (TNum i) n = (JNum i, n)"
| "build (TStr s) n = (JStr s, n)"
| "build (TArr ts) n = (case buildAll ts (Suc n) of (xs, n') \<Rightarrow> (JArr (Parsed n) xs, n'))"
| "build (TObj kts) n = (case buildFields kts (Suc n) of (kvs, n') \<Rightarrow> (JObj (Parsed n) kvs, n'))"
| "buildAll [] n = ([], n)"
| "buildAll (t # ts) n =
     (case build t n of (x, n1) \<Rightarrow> (case buildAll ts n1 of (xs, n2) \<Rightarrow> (x # xs, n2)))"
| "buildFields [] n = ([], n)"
| "buildFields (kt # kts) n =
     (case build (snd kt) n of (x, n1) \<Rightarrow>
        (case buildFields kts n1 of (kvs, n2) \<Rightarrow> ((fst kt, x) # kvs, n2)))"

text \<open>
  A string that reaches \<open>JSON.parse\<close> is given by what it holds: \<open>Some t\<close> for the
  JSON text with syntax tree \<open>t\<close>, \<open>None\<close> for a string that is not JSON, on which
  \<open>JSON.parse\<close> throws a SyntaxError.
\<close>

type_synonym wire = "json option"

datatype failure =
    SyntaxError
  | TypeError
  | ReducerDispatch
  | NoCase

definition JSON_parse :: "nat \<Rightarrow> wire \<Rightarrow> failure + jsval \<times> nat" where
  "JSON_parse n w = (case w of None \<Rightarrow> Inl SyntaxError | Some t \<Rightarrow> Inr (build t n))"

text \<open>
  Two values are deeply equal when they differ in identities only: \<open>strip\<close> forgets the
  identities. A value survives the serialization when parsing its text gives a value
  deeply equal to it.
\<close>

fun strip :: "jsval \<Rightarrow> jsval" where
  "strip (JArr r xs) = JArr Lit (map strip xs)"
| "strip (JObj r kvs) = JObj Lit (map (\<lambda>(k, v). (k, strip v)) kvs)"
| "strip v = v"

definition deepEqual :: "jsval \<Rightarrow> jsval \<Rightarrow> bool" where
  "deepEqual a b = (strip a = strip b)"

definition survives :: "jsval \<Rightarrow> bool" where
  "survives v =
     (case JSON_stringify v of None \<Rightarrow> False | Some t \<Rightarrow> deepEqual (fst (build t 0)) v)"

section \<open>Type matchers (the typematcher combinators used by the repository)\<close>

text \<open>
  A matcher answers true or false, or throws: \<open>hasFields\<close> asks the inspected value
  itself for \<open>hasOwnProperty\<close>, and a value that has an own property of that name (which
  in a parsed text is never a function) makes the call a TypeError.
\<close>

type_synonym matcher = "jsval \<Rightarrow> failure + bool"

definition total :: "(jsval \<Rightarrow> bool) \<Rightarrow> matcher" where
  "total m v = Inr (m v)"

definition isObject :: "jsval \<Rightarrow> bool" where
  "isObject v = (case v of JObj r kvs \<Rightarrow> True | JArr r xs \<Rightarrow> True | _ \<Rightarrow> False)"

definition isValue :: "jsval \<Rightarrow> matcher" where
  "isValue x v = Inr (v = x)"

definition isString :: "jsval \<Rightarrow> bool" where
  "isString v = (case v of JStr s \<Rightarrow> True | _ \<Rightarrow> False)"

definition isNumber :: "jsval \<Rightarrow> bool" where
  "isNumber v = (case v of JNum n \<Rightarrow> True | _ \<Rightarrow> False)"

text \<open>
  \<open>val.hasOwnProperty(key)\<close>, for the keys the matchers of the repository ask for
  (\<open>_tag\<close>, \<open>value\<close>, \<open>values\<close>): an array has none of them.
\<close>

definition hasOwnProperty :: "jsval \<Rightarrow> string \<Rightarrow> failure + bool" where
  "hasOwnProperty v k =
     (case v of
        JObj r kvs \<Rightarrow>
          (if map_of kvs ''hasOwnProperty'' \<noteq> None then Inl TypeError
           else Inr (map_of kvs k \<noteq> None))
      | JUndefined \<Rightarrow> Inl TypeError
      | JNull \<Rightarrow> Inl TypeError
      | _ \<Rightarrow> Inr False)"

fun matchFields :: "(string \<times> matcher) list \<Rightarrow> jsval \<Rightarrow> failure + bool" where
  "matchFields [] v = Inr True"
| "matchFields (f # fs) v =
     (case hasOwnProperty v (fst f) of
        Inl e \<Rightarrow> Inl e
      | Inr own \<Rightarrow>
          (case (snd f) (if own then getField v (fst f) else JUndefined) of
             Inl e \<Rightarrow> Inl e
           | Inr ok \<Rightarrow> if ok then matchFields fs v else Inr False))"

definition hasFields :: "(string \<times> matcher) list \<Rightarrow> matcher" where
  "hasFields fs v = (if isObject v then matchFields fs v else Inr False)"

fun matchAll :: "matcher \<Rightarrow> jsval list \<Rightarrow> failure + bool" where
  "matchAll m [] = Inr True"
| "matchAll m (x # xs) =
     (case m x of Inl e \<Rightarrow> Inl e | Inr ok \<Rightarrow> if ok then matchAll m xs else Inr False)"

definition isArrayOf :: "matcher \<Rightarrow> matcher" where
  "isArrayOf m v = (case v of JArr r xs \<Rightarrow> matchAll m xs | _ \<Rightarrow> Inr False)"

definition isEither :: "matcher \<Rightarrow> matcher \<Rightarrow> matcher" where
  "isEither a b v = (case a v of Inl e \<Rightarrow> Inl e | Inr ok \<Rightarrow> if ok then Inr True else b v)"

subsection \<open>Recognizers of operations (operations.ts)\<close>

definition isAdd :: "matcher \<Rightarrow> matcher" where
  "isAdd valueMatch = hasFields [(''_tag'', isValue (JStr ''Add'')), (''value'', valueMatch)]"

definition isRemove :: "matcher \<Rightarrow> matcher" where
  "isRemove valueMatch =
     hasFields [(''_tag'', isValue (JStr ''Remove'')), (''value'', valueMatch)]"

definition isClear :: "matcher" where
  "isClear = hasFields [(''_tag'', isValue (JStr ''Clear''))]"

definition isAddAll :: "matcher \<Rightarrow> matcher" where
  "isAddAll valueMatch =
     hasFields [(''_tag'', isValue (JStr ''AddAll'')), (''values'', isArrayOf valueMatch)]"

definition isReplaceAll :: "matcher \<Rightarrow> matcher" where
  "isReplaceAll valueMatch =
     hasFields [(''_tag'', isValue (JStr ''ReplaceAll'')), (''values'', isArrayOf valueMatch)]"

definition isLiveSetOp :: "matcher \<Rightarrow> matcher" where
  "isLiveSetOp valueMatch =
     isEither (isAdd valueMatch)
       (isEither (isRemove valueMatch)
         (isEither isClear
           (isEither (isAddAll valueMatch) (isReplaceAll valueMatch))))"

text \<open>
  The object literals returned by the builders \<open>Add(value)\<close>, \<open>Remove(value)\<close>,
  \<open>Clear\<close>, \<open>AddAll(values)\<close> and \<open>ReplaceAll(values)\<close>.
\<close>

fun opObject :: "jsval LiveSetOp \<Rightarrow> jsval" where
  "opObject (Add v) = JObj Lit [(''_tag'', JStr ''Add''), (''value'', v)]"
| "opObject (Remove v) = JObj Lit [(''_tag'', JStr ''Remove''), (''value'', v)]"
| "opObject Clear = JObj Lit [(''_tag'', JStr ''Clear'')]"
| "opObject (AddAll vs) = JObj Lit [(''_tag'', JStr ''AddAll''), (''values'', JArr Lit vs)]"
| "opObject (ReplaceAll vs) =
     JObj Lit [(''_tag'', JStr ''ReplaceAll''), (''values'', JArr Lit vs)]"

text \<open>
  An object read as a \<open>LiveSetOp\<close>, the way \<open>switch (op._tag)\<close> reads it in \<open>apply\<close> and
  in \<open>fanOut\<close>: the variant is chosen by \<open>_tag\<close>, then \<open>value\<close> or \<open>values\<close> is read.
  \<open>None\<close> is the object no case of the switch matches, and the \<open>AddAll\<close> or \<open>ReplaceAll\<close>
  whose \<open>values\<close> is no array; \<open>isLiveSetOp\<close> accepts neither, and the store reads an
  object this way only after \<open>isLiveSetOp\<close> accepted it.
\<close>

definition asLiveSetOp :: "jsval \<Rightarrow> jsval LiveSetOp option" where
  "asLiveSetOp v =
     (let tag = getField v ''_tag'' in
      if tag = JStr ''Add'' then Some (Add (getField v ''value''))
      else if tag = JStr ''Remove'' then Some (Remove (getField v ''value''))
      else if tag = JStr ''Clear'' then Some Clear
      else if tag = JStr ''AddAll'' then
        (case getField v ''values'' of JArr r vs \<Rightarrow> Some (AddAll vs) | _ \<Rightarrow> None)
      else if tag = JStr ''ReplaceAll'' then
        (case getField v ''values'' of JArr r vs \<Rightarrow> Some (ReplaceAll vs) | _ \<Rightarrow> None)
      else None)"

section \<open>The store connected to redis (store.ts)\<close>

subsection \<open>Direction wrappers and redux actions\<close>

definition FanIn :: "jsval \<Rightarrow> jsval" where
  "FanIn v = JObj Lit [(''_tag'', JStr ''FanIn''), (''value'', v)]"

definition FanOut :: "jsval \<Rightarrow> jsval" where
  "FanOut v = JObj Lit [(''_tag'', JStr ''FanOut''), (''value'', v)]"

definition isFanIn :: "matcher \<Rightarrow> matcher" where
  "isFanIn tMatcher = hasFields [(''_tag'', isValue (JStr ''FanIn'')), (''value'', tMatcher)]"

definition isFanOut :: "matcher \<Rightarrow> matcher" where
  "isFanOut tMatcher = hasFields [(''_tag'', isValue (JStr ''FanOut'')), (''value'', tMatcher)]"

definition storeAction :: "jsval \<Rightarrow> jsval" where
  "storeAction action = JObj Lit [(''type'', action)]"

subsection \<open>Configuration, redis commands and replies\<close>

text \<open>
  The configured type matcher is taken to answer true or false on every value.
\<close>

record config =
  key :: string
  typeMatcher :: "jsval \<Rightarrow> bool"
  updatesChan :: string

definition isOp :: "config \<Rightarrow> matcher" where
  "isOp cfg = isLiveSetOp (total (typeMatcher cfg))"

text \<open>
  The commands the store issues on its two connections, in \<open>sent\<close>, oldest first. The
  serialized members and the published payload are JSON texts (\<open>wire\<close>).
\<close>

datatype command =
    SADD string "wire list"
  | SREM string "wire list"
  | DEL string
  | MULTI "command list"
  | PUBLISH string wire
  | SMEMBERS string
  | SUBSCRIBE string

text \<open>
  What redis answers to \<open>smembers\<close>, as the callback receives it: nil, an integer,
  a string or an array of replies. \<open>asStrings\<close> is \<open>isArrayOf(isString)(value)\<close>:
  it gives the strings when the value is an array of strings, and \<open>None\<close> otherwise.
\<close>

datatype reply =
    RNil
  | RInt int
  | RBulk wire
  | RMulti "reply list"

definition bulkOf :: "reply \<Rightarrow> wire option" where
  "bulkOf r = (case r of RBulk w \<Rightarrow> Some w | _ \<Rightarrow> None)"

definition asStrings :: "reply \<Rightarrow> wire list option" where
  "asStrings value = (case value of RMulti items \<Rightarrow> those (map bulkOf items) | _ \<Rightarrow> None)"

fun parseAll :: "nat \<Rightarrow> wire list \<Rightarrow> failure + jsval list \<times> nat" where
  "parseAll n [] = Inr ([], n)"
| "parseAll n (item # items) =
     (case JSON_parse n item of
        Inl e \<Rightarrow> Inl e
      | Inr (v, n1) \<Rightarrow>
          (case parseAll n1 items of Inl e \<Rightarrow> Inl e | Inr (vs, n2) \<Rightarrow> Inr (v # vs, n2)))"

subsection \<open>The state of one store\<close>

text \<open>
  A listener is the closure \<open>RedisLiveSet.subscribe\<close> registers with the redux store:
  its variable \<open>lastSet\<close> (\<open>None\<close> for \<open>null\<close>) and, in \<open>called\<close>, the sets its callback
  \<open>cb\<close> has been invoked with, oldest first.

  \<open>allocated\<close> is the number of arrays and objects \<open>JSON.parse\<close> has built so far.
\<close>

record listener =
  lastSet :: "jsval set option"
  called :: "jsval set list"

record LiveStore =
  getState :: "jsval set"
  listeners :: "listener list"
  pubIsUp :: bool
  subIsUp :: bool
  fanOutBuffer :: "jsval list"
  isLoadingSeed :: bool
  fanInBuffer :: "jsval list"
  sent :: "command list"
  allocated :: nat

definition createLiveStore :: "config \<Rightarrow> LiveStore" where
  "createLiveStore cfg =
     \<lparr>getState = {}, listeners = [], pubIsUp = False, subIsUp = False, fanOutBuffer = [],
      isLoadingSeed = False, fanInBuffer = [], sent = [SUBSCRIBE (updatesChan cfg)],
      allocated = 0\<rparr>"

subsection \<open>Fan-out\<close>

text \<open>
  The write to the shared set that \<open>fanOut\<close> chooses by \<open>switch (op._tag)\<close>; an object
  that matches no case writes nothing.
\<close>

definition storeWrite :: "config \<Rightarrow> jsval \<Rightarrow> command list" where
  "storeWrite cfg op =
     (case asLiveSetOp op of
        Some (Add v) \<Rightarrow> [SADD (key cfg) [JSON_stringify v]]
      | Some (Remove v) \<Rightarrow> [SREM (key cfg) [JSON_stringify v]]
      | Some Clear \<Rightarrow> [DEL (key cfg)]
      | Some (AddAll vs) \<Rightarrow> [SADD (key cfg) (map JSON_stringify vs)]
      | Some (ReplaceAll vs) \<Rightarrow>
          [MULTI [DEL (key cfg), SADD (key cfg) (map JSON_stringify vs)]]
      | None \<Rightarrow> [])"

text \<open>
  Forwarding one operation: the write to the shared set, then the \<open>publish\<close> of the
  serialized operation on the updates channel.

  \<open>fanOut\<close> runs only inside the reducer. With a buffer that is not empty it calls
  \<open>flushFanOutBuffer\<close>, whose first \<open>store.dispatch\<close> redux refuses while a reducer
  is running ("Reducers may not dispatch actions."): \<open>ReducerDispatch\<close>.
\<close>

definition forward :: "config \<Rightarrow> jsval \<Rightarrow> command list" where
  "forward cfg op = storeWrite cfg op @ [PUBLISH (updatesChan cfg) (JSON_stringify op)]"

definition fanOut :: "config \<Rightarrow> jsval \<Rightarrow> LiveStore \<Rightarrow> failure + LiveStore" where
  "fanOut cfg op st =
     (if pubIsUp st then
        (if length (fanOutBuffer st) > 0 then Inl ReducerDispatch
         else Inr (st\<lparr>sent := sent st @ forward cfg op\<rparr>))
      else Inr (st\<lparr>fanOutBuffer := fanOutBuffer st @ [op]\<rparr>))"

subsection \<open>The reducer and dispatch\<close>

text \<open>
  \<open>applyJS\<close> is \<open>apply(s, op)\<close> on an object: \<open>NoCase\<close> stands for the object that
  no case of the switch in \<open>apply\<close> matches.
\<close>

definition applyJS :: "jsval set \<Rightarrow> jsval \<Rightarrow> failure + jsval set" where
  "applyJS s op = (case asLiveSetOp op of None \<Rightarrow> Inl NoCase | Some x \<Rightarrow> Inr (apply_op s x))"

text \<open>
  The reducer tries its cases in order: an operation, a FanIn wrapper, a FanOut wrapper,
  anything else. A matcher that throws ends the reducer with its failure.
\<close>

definition reducer :: "config \<Rightarrow> jsval \<Rightarrow> LiveStore \<Rightarrow> failure + LiveStore" where
  "reducer cfg action st =
     (let t = getField action ''type'' in
      case isOp cfg t of
        Inl e \<Rightarrow> Inl e
      | Inr local \<Rightarrow>
          if local then
            (case applyJS (getState st) t of
               Inl e \<Rightarrow> Inl e
             | Inr newS \<Rightarrow>
                 (case fanOut cfg t st of
                    Inl e \<Rightarrow> Inl e
                  | Inr st' \<Rightarrow> Inr (st'\<lparr>getState := newS\<rparr>)))
          else
            (case isFanIn (isOp cfg) t of
               Inl e \<Rightarrow> Inl e
             | Inr remote \<Rightarrow>
                 if remote then
                   (case applyJS (getState st) (getField t ''value'') of
                      Inl e \<Rightarrow> Inl e
                    | Inr newS \<Rightarrow> Inr (st\<lparr>getState := newS\<rparr>))
                 else
                   (case isFanOut (isOp cfg) t of
                      Inl e \<Rightarrow> Inl e
                    | Inr out \<Rightarrow>
                        if out then fanOut cfg (getField t ''value'') st else Inr st)))"

text \<open>
  One notification of a listener (index.ts, \<open>subscribe\<close>): the callback is invoked when
  \<open>lastSet\<close> is \<open>null\<close> or differs from the new set, and \<open>lastSet\<close> is updated.
\<close>

definition notify :: "jsval set \<Rightarrow> listener \<Rightarrow> listener" where
  "notify newSet l =
     \<lparr>lastSet = Some newSet,
      called = (case lastSet l of
                  None \<Rightarrow> called l @ [newSet]
                | Some old \<Rightarrow> if old \<noteq> newSet then called l @ [newSet] else called l)\<rparr>"

text \<open>
  \<open>store.dispatch\<close> of redux: the reducer computes the next state, then every listener
  is notified.
\<close>

definition dispatch :: "config \<Rightarrow> jsval \<Rightarrow> LiveStore \<Rightarrow> failure + LiveStore" where
  "dispatch cfg action st =
     (case reducer cfg action st of
        Inl e \<Rightarrow> Inl e
      | Inr st' \<Rightarrow> Inr (st'\<lparr>listeners := map (notify (getState st')) (listeners st')\<rparr>))"

fun dispatchEach :: "config \<Rightarrow> jsval list \<Rightarrow> LiveStore \<Rightarrow> failure + LiveStore" where
  "dispatchEach cfg [] st = Inr st"
| "dispatchEach cfg (a # as) st =
     (case dispatch cfg a st of Inl e \<Rightarrow> Inl e | Inr st' \<Rightarrow> dispatchEach cfg as st')"

definition flushFanOutBuffer :: "config \<Rightarrow> LiveStore \<Rightarrow> failure + LiveStore" where
  "flushFanOutBuffer cfg st =
     dispatchEach cfg (map (\<lambda>op. storeAction (FanOut op)) (fanOutBuffer st))
       (st\<lparr>fanOutBuffer := []\<rparr>)"

subsection \<open>Fan-in and the seed load\<close>

definition flushFanInBuffer :: "config \<Rightarrow> LiveStore \<Rightarrow> failure + LiveStore" where
  "flushFanInBuffer cfg st =
     dispatchEach cfg (map (\<lambda>op. storeAction (FanIn op)) (fanInBuffer st))
       (st\<lparr>fanInBuffer := []\<rparr>)"

text \<open>\<open>fanIn\<close> is defined in store.ts; no handler of store.ts calls it.\<close>

definition fanIn :: "config \<Rightarrow> jsval \<Rightarrow> LiveStore \<Rightarrow> failure + LiveStore" where
  "fanIn cfg op st =
     (if isLoadingSeed st then Inr (st\<lparr>fanInBuffer := fanInBuffer st @ [op]\<rparr>)
      else
        (case (if length (fanInBuffer st) > 0 then flushFanInBuffer cfg st else Inr st) of
           Inl e \<Rightarrow> Inl e
         | Inr st' \<Rightarrow> dispatch cfg (storeAction (FanIn op)) st'))"

text \<open>
  The callback of \<open>pub.smembers\<close>, in its two parts: the baseline of the seed load
  (nothing on an error; otherwise \<open>ReplaceAll\<close> of the parsed members, or of \<open>[]\<close> when
  the value is not an array of strings), then the flush of the fan-in buffer.
\<close>

definition seedBaseline :: "config \<Rightarrow> bool \<Rightarrow> reply \<Rightarrow> LiveStore \<Rightarrow> failure + LiveStore" where
  "seedBaseline cfg err value st =
     (if err then Inr st
      else
        (case (case asStrings value of
                 Some items \<Rightarrow> parseAll (allocated st) items
               | None \<Rightarrow> Inr ([], allocated st)) of
           Inl e \<Rightarrow> Inl e
         | Inr (newSet, n) \<Rightarrow>
             dispatch cfg (storeAction (FanIn (opObject (ReplaceAll newSet))))
               (st\<lparr>allocated := n\<rparr>)))"

definition smembersCallback ::
  "config \<Rightarrow> bool \<Rightarrow> reply \<Rightarrow> LiveStore \<Rightarrow> failure + LiveStore" where
  "smembersCallback cfg err value st =
     (case seedBaseline cfg err value st of
        Inl e \<Rightarrow> Inl e
      | Inr st1 \<Rightarrow>
          (case flushFanInBuffer cfg st1 of
             Inl e \<Rightarrow> Inl e
           | Inr st2 \<Rightarrow> Inr (st2\<lparr>isLoadingSeed := False\<rparr>)))"

subsection \<open>Events\<close>

text \<open>
  What can happen to a store: a failure event of a connection (\<open>reconnecting\<close>,
  \<open>error\<close>, \<open>end\<close>), \<open>ready\<close> on the publish connection, \<open>subscribe\<close> and
  \<open>message\<close> on the subscribe connection, the answer to an \<open>smembers\<close>, and the calls
  of index.ts: \<open>add\<close>, \<open>remove\<close>, \<open>clear\<close>, \<open>addAll\<close>, \<open>replaceAll\<close> (\<open>Call\<close>, by
  the operation they build) and \<open>subscribe\<close>.
\<close>

datatype failEvent = Reconnecting | Error | End

datatype event =
    PubFail failEvent
  | SubFail failEvent
  | PubReady
  | Subscribed string
  | SmembersReply bool reply
  | Message string wire
  | Call "jsval LiveSetOp"
  | Subscribe

fun on :: "config \<Rightarrow> event \<Rightarrow> LiveStore \<Rightarrow> failure + LiveStore" where
  "on cfg (PubFail e) st = Inr (st\<lparr>pubIsUp := False\<rparr>)"
| "on cfg (SubFail e) st = Inr (st\<lparr>subIsUp := False\<rparr>)"
| "on cfg PubReady st = flushFanOutBuffer cfg (st\<lparr>pubIsUp := True\<rparr>)"
| "on cfg (Subscribed ch) st =
     (if ch = updatesChan cfg then
        Inr (st\<lparr>subIsUp := True, isLoadingSeed := True,
                 sent := sent st @ [SMEMBERS (key cfg)]\<rparr>)
      else Inr st)"
| "on cfg (SmembersReply err value) st = smembersCallback cfg err value st"
| "on cfg (Message ch message) st =
     (if ch = updatesChan cfg then
        (case JSON_parse (allocated st) message of
           Inl e \<Rightarrow> Inl e
         | Inr (op, n) \<Rightarrow>
             (case isOp cfg op of
                Inl e \<Rightarrow> Inl e
              | Inr ok \<Rightarrow>
                  if ok then dispatch cfg (storeAction (FanIn op)) (st\<lparr>allocated := n\<rparr>)
                  else Inr (st\<lparr>allocated := n\<rparr>)))
      else Inr st)"
| "on cfg (Call x) st = dispatch cfg (storeAction (opObject x)) st"
| "on cfg Subscribe st =
     Inr (st\<lparr>listeners := listeners st @ [\<lparr>lastSet = None, called = []\<rparr>]\<rparr>)"

fun run :: "config \<Rightarrow> event list \<Rightarrow> LiveStore \<Rightarrow> failure + LiveStore" where
  "run cfg [] st = Inr st"
| "run cfg (e # es) st = (case on cfg e st of Inl x \<Rightarrow> Inl x | Inr st' \<Rightarrow> run cfg es st')"

text \<open>
  The configuration \<open>createNumbersLiveSet(key, pub, sub)\<close> builds its store with: the
  matcher \<open>isNumber\<close>, and the key as the updates channel. \<open>anyConfig\<close> is a store whose
  matcher accepts every value.
\<close>

definition numbersConfig :: "string \<Rightarrow> config" where
  "numbersConfig k = \<lparr>key = k, typeMatcher = isNumber, updatesChan = k\<rparr>"

definition anyConfig :: "string \<Rightarrow> config" where
  "anyConfig k = \<lparr>key = k, typeMatcher = (\<lambda>v. True), updatesChan = k\<rparr>"

section \<open>The wrapper with the members-init callbacks\<close>

text \<open>
  The class \<open>RedisLiveSet\<close> of the later revision of index.ts: the store, the list
  \<open>_membersInitCallbacks\<close> (a callback is named by a number), the flag
  \<open>_membersInitDone\<close>, and in \<open>initCalled\<close> every invocation of such a callback with
  the set it received, oldest first.
\<close>

record RedisLiveSet =
  store :: LiveStore
  membersInitCallbacks :: "nat list"
  membersInitDone :: bool
  initCalled :: "(nat \<times> jsval set) list"

definition newRedisLiveSet :: "config \<Rightarrow> RedisLiveSet" where
  "newRedisLiveSet cfg =
     \<lparr>store = createLiveStore cfg, membersInitCallbacks = [], membersInitDone = False,
      initCalled = []\<rparr>"

definition onMembersLoaded :: "RedisLiveSet \<Rightarrow> RedisLiveSet" where
  "onMembersLoaded r =
     (if \<not> membersInitDone r then
        r\<lparr>membersInitDone := True,
          initCalled := initCalled r
            @ map (\<lambda>cb. (cb, getState (store r))) (membersInitCallbacks r),
          membersInitCallbacks := []\<rparr>
      else r)"

definition onMembersInit :: "nat \<Rightarrow> RedisLiveSet \<Rightarrow> RedisLiveSet" where
  "onMembersInit cb r =
     (if membersInitDone r then r\<lparr>initCalled := initCalled r @ [(cb, getState (store r))]\<rparr>
      else r\<lparr>membersInitCallbacks := membersInitCallbacks r @ [cb]\<rparr>)"

text \<open>
  Modelled from the spec: the \<open>createLiveStore\<close> that takes the hook \<open>onMembersLoaded\<close>
  as its sixth argument is not among the sources (the store.ts at hand takes five
  arguments and calls no hook). By the spec the hook is there for the completion of a
  seed load ("once it completes, with the post-seed Set State"): the store calls it at
  the end of the \<open>smembers\<close> callback of a fetch that succeeded, after the baseline, the
  flush of the fan-in buffer and the clearing of \<open>isLoadingSeed\<close>. A fetch that failed
  loads no seed and calls no hook.
\<close>

definition seedLoaded :: "event \<Rightarrow> bool" where
  "seedLoaded e = (case e of SmembersReply err value \<Rightarrow> \<not> err | _ \<Rightarrow> False)"

text \<open>
  Modelled from the spec: one event of the store, followed by the call of the hook when
  the event completed a seed load.
\<close>

definition onWithHook :: "config \<Rightarrow> event \<Rightarrow> RedisLiveSet \<Rightarrow> failure + RedisLiveSet" where
  "onWithHook cfg e r =
     (case on cfg e (store r) of
        Inl x \<Rightarrow> Inl x
      | Inr s \<Rightarrow> Inr (if seedLoaded e then onMembersLoaded (r\<lparr>store := s\<rparr>)
                       else r\<lparr>store := s\<rparr>))"

datatype liveSetEvent =
    Store event
  | OnMembersInit nat

fun liveSetOn :: "config \<Rightarrow> liveSetEvent \<Rightarrow> RedisLiveSet \<Rightarrow> failure + RedisLiveSet" where
  "liveSetOn cfg (Store e) r = onWithHook cfg e r"
| "liveSetOn cfg (OnMembersInit cb) r = Inr (onMembersInit cb r)"

fun liveSetRun ::
  "config \<Rightarrow> liveSetEvent list \<Rightarrow> RedisLiveSet \<Rightarrow> failure + RedisLiveSet" where
  "liveSetRun cfg [] r = Inr r"
| "liveSetRun cfg (e # es) r =
     (case liveSetOn cfg e r of Inl x \<Rightarrow> Inl x | Inr r' \<Rightarrow> liveSetRun cfg es r')"

text \<open>The callbacks a sequence of events registers with \<open>onMembersInit\<close>, in order.\<close>

fun registered :: "liveSetEvent list \<Rightarrow> nat list" where
  "registered [] = []"
| "registered (OnMembersInit cb # es) = cb # registered es"
| "registered (e # es) = registered es"

section \<open>An invariant of the store\<close>

text \<open>
  What holds of a store after any sequence of events: while the publish connection is up
  the fan-out buffer is empty, the fan-out buffer holds recognized operations only, the
  fan-in buffer is empty, and the \<open>lastSet\<close> of a listener is \<open>null\<close> or the current set.
\<close>

definition storeInv :: "config \<Rightarrow> LiveStore \<Rightarrow> bool" where
  "storeInv cfg st =
     ((\<not> pubIsUp st \<or> fanOutBuffer st = [])
      \<and> list_all (\<lambda>op. isOp cfg op = Inr True) (fanOutBuffer st)
      \<and> fanInBuffer st = []
      \<and> list_all (\<lambda>l. lastSet l = None \<or> lastSet l = Some (getState st)) (listeners st))"

section \<open>An invariant of the members-init callbacks\<close>

text \<open>
  What holds of a live set after any sequence of events: \<open>_membersInitDone\<close> is set exactly
  when a seed load has completed; until then no callback was invoked and the queue holds
  the callbacks registered so far, in order; from then on the queue is empty and every
  callback was invoked as many times as it was registered.
\<close>

definition initInv :: "liveSetEvent list \<Rightarrow> RedisLiveSet \<Rightarrow> bool" where
  "initInv evs r =
     (membersInitDone r = (\<exists>e. Store e \<in> set evs \<and> seedLoaded e)
      \<and> (if membersInitDone r
         then membersInitCallbacks r = []
              \<and> (\<forall>cb. count_list (map fst (initCalled r)) cb = count_list (registered evs) cb)
         else initCalled r = [] \<and> membersInitCallbacks r = registered evs))"

section \<open>Facts about the matchers\<close>

lemmas matcher_defs = isOp_def total_def isLiveSetOp_def isEither_def isAdd_def isRemove_def
  isClear_def isAddAll_def isReplaceAll_def hasFields_def hasOwnProperty_def isObject_def
  isValue_def isArrayOf_def isFanIn_def isFanOut_def

lemma getField_storeAction [simp]: "getField (storeAction a) ''type'' = a"
  by (simp add: storeAction_def)

lemma getField_FanIn [simp]: "getField (FanIn v) ''value'' = v"
  by (simp add: FanIn_def)

lemma getField_FanOut [simp]: "getField (FanOut v) ''value'' = v"
  by (simp add: FanOut_def)

lemma ownField:
  "hasOwnProperty v k = Inr own \<Longrightarrow> (if own then getField v k else JUndefined) = getField v k"
  by (cases v) (auto simp: hasOwnProperty_def split: if_splits option.splits)

lemma matchFields_True:
  assumes "matchFields (f # fs) v = Inr True"
  shows "(snd f) (getField v (fst f)) = Inr True \<and> matchFields fs v = Inr True"
proof -
  from assms obtain own where o: "hasOwnProperty v (fst f) = Inr own"
    by (auto split: sum.splits)
  with assms ownField [OF o] show ?thesis
    by (auto split: sum.splits if_splits)
qed

lemma hasFields_True:
  assumes "hasFields (f # fs) v = Inr True"
  shows "(snd f) (getField v (fst f)) = Inr True \<and> matchFields fs v = Inr True"
  using assms matchFields_True [of f fs v] by (auto simp: hasFields_def split: if_splits)

lemma isEither_True: "isEither a b v = Inr True \<Longrightarrow> a v = Inr True \<or> b v = Inr True"
  by (auto simp: isEither_def split: sum.splits if_splits)

lemma matchAll_total [simp]: "matchAll (total m) xs = Inr (list_all m xs)"
  by (induction xs) (auto simp: total_def)

lemma isArrayOf_True:
  "isArrayOf m v = Inr True \<Longrightarrow> \<exists>r xs. v = JArr r xs \<and> matchAll m xs = Inr True"
  by (cases v) (auto simp: isArrayOf_def)

lemma isAdd_True:
  "isAdd m v = Inr True \<Longrightarrow>
     getField v ''_tag'' = JStr ''Add'' \<and> m (getField v ''value'') = Inr True"
  unfolding isAdd_def
  by (auto dest!: hasFields_True matchFields_True simp: isValue_def)

lemma isRemove_True:
  "isRemove m v = Inr True \<Longrightarrow>
     getField v ''_tag'' = JStr ''Remove'' \<and> m (getField v ''value'') = Inr True"
  unfolding isRemove_def
  by (auto dest!: hasFields_True matchFields_True simp: isValue_def)

lemma isClear_True: "isClear v = Inr True \<Longrightarrow> getField v ''_tag'' = JStr ''Clear''"
  unfolding isClear_def
  by (auto dest!: hasFields_True simp: isValue_def)

lemma isAddAll_True:
  "isAddAll m v = Inr True \<Longrightarrow>
     getField v ''_tag'' = JStr ''AddAll''
     \<and> (\<exists>r xs. getField v ''values'' = JArr r xs \<and> matchAll m xs = Inr True)"
  unfolding isAddAll_def
  by (auto dest!: hasFields_True matchFields_True isArrayOf_True simp: isValue_def)

lemma isReplaceAll_True:
  "isReplaceAll m v = Inr True \<Longrightarrow>
     getField v ''_tag'' = JStr ''ReplaceAll''
     \<and> (\<exists>r xs. getField v ''values'' = JArr r xs \<and> matchAll m xs = Inr True)"
  unfolding isReplaceAll_def
  by (auto dest!: hasFields_True matchFields_True isArrayOf_True simp: isValue_def)

lemma isFanIn_True:
  "isFanIn m v = Inr True \<Longrightarrow>
     getField v ''_tag'' = JStr ''FanIn'' \<and> m (getField v ''value'') = Inr True"
  unfolding isFanIn_def
  by (auto dest!: hasFields_True matchFields_True simp: isValue_def)

lemma isFanOut_True:
  "isFanOut m v = Inr True \<Longrightarrow>
     getField v ''_tag'' = JStr ''FanOut'' \<and> m (getField v ''value'') = Inr True"
  unfolding isFanOut_def
  by (auto dest!: hasFields_True matchFields_True simp: isValue_def)

lemma isLiveSetOp_cases:
  assumes "isLiveSetOp m v = Inr True"
  shows "isAdd m v = Inr True \<or> isRemove m v = Inr True \<or> isClear v = Inr True
       \<or> isAddAll m v = Inr True \<or> isReplaceAll m v = Inr True"
  using assms unfolding isLiveSetOp_def by (blast dest: isEither_True)

lemma isLiveSetOp_tag:
  assumes "isLiveSetOp m v = Inr True"
  shows "getField v ''_tag''
       \<in> {JStr ''Add'', JStr ''Remove'', JStr ''Clear'', JStr ''AddAll'', JStr ''ReplaceAll''}"
  using isLiveSetOp_cases [OF assms] isAdd_True [of m v] isRemove_True [of m v]
    isClear_True [of v] isAddAll_True [of m v] isReplaceAll_True [of m v]
  by auto

lemma isLiveSetOp_asLiveSetOp:
  assumes "isLiveSetOp m v = Inr True"
  shows "\<exists>x. asLiveSetOp v = Some x"
  using isLiveSetOp_cases [OF assms] isAdd_True [of m v] isRemove_True [of m v]
    isClear_True [of v] isAddAll_True [of m v] isReplaceAll_True [of m v]
  by (auto simp: asLiveSetOp_def)

lemma isLiveSetOp_FanIn [simp]: "isLiveSetOp m (FanIn v) = Inr False"
  by (simp add: matcher_defs FanIn_def)

lemma isLiveSetOp_FanOut [simp]: "isLiveSetOp m (FanOut v) = Inr False"
  by (simp add: matcher_defs FanOut_def)

lemma isFanIn_FanIn [simp]: "isFanIn m (FanIn v) = m v"
  by (cases "m v") (auto simp: matcher_defs FanIn_def)

lemma isFanIn_FanOut [simp]: "isFanIn m (FanOut v) = Inr False"
  by (simp add: matcher_defs FanOut_def)

lemma isFanOut_FanOut [simp]: "isFanOut m (FanOut v) = m v"
  by (cases "m v") (auto simp: matcher_defs FanOut_def)

lemma isLiveSetOp_opObject:
  "isLiveSetOp (total m) (opObject x) = Inr (list_all m (valuesOf x))"
  by (cases x) (simp_all add: matcher_defs)

lemma isOp_opObject: "isOp cfg (opObject x) = Inr (list_all (typeMatcher cfg) (valuesOf x))"
  by (simp add: isOp_def isLiveSetOp_opObject)

lemma asLiveSetOp_opObject [simp]: "asLiveSetOp (opObject x) = Some x"
  by (cases x) (simp_all add: asLiveSetOp_def)

lemma isFanOut_exclusive:
  "isFanOut m' v = Inr True \<Longrightarrow> isLiveSetOp m v \<noteq> Inr True \<and> isFanIn m'' v \<noteq> Inr True"
  using isFanOut_True [of m' v] isFanIn_True [of m'' v] isLiveSetOp_tag [of m v] by auto

lemma applyJS_isLiveSetOp:
  "isLiveSetOp m v = Inr True \<Longrightarrow>
     \<exists>x. asLiveSetOp v = Some x \<and> applyJS s v = Inr (apply_op s x)"
  using isLiveSetOp_asLiveSetOp [of m v] by (auto simp: applyJS_def)

section \<open>The transition function\<close>





section \<open>The reducer\<close>

lemma hasFields_own:
  assumes "hasFields (f # fs) v = Inr b" and "isObject v"
  shows "\<exists>own. hasOwnProperty v (fst f) = Inr own"
  using assms by (auto simp: hasFields_def split: sum.splits)

lemma hasOwnProperty_any:
  assumes "hasOwnProperty v k = Inr own"
  shows "\<exists>own'. hasOwnProperty v k' = Inr own'"
  using assms by (cases v) (auto simp: hasOwnProperty_def split: if_splits)

lemma tag_mismatch:
  assumes "hasOwnProperty v ''_tag'' = Inr own" and "getField v ''_tag'' \<noteq> x"
  shows "hasFields ((''_tag'', isValue x) # fs) v = Inr False"
proof (cases own)
  case True
  with assms show ?thesis by (simp add: hasFields_def isValue_def)
next
  case False
  with ownField [OF assms(1)] assms(2) have "x \<noteq> JUndefined" by auto
  with False assms(1) show ?thesis by (simp add: hasFields_def isValue_def)
qed

lemma isLiveSetOp_other_tag:
  assumes "hasOwnProperty v ''_tag'' = Inr own"
    and "getField v ''_tag''
       \<notin> {JStr ''Add'', JStr ''Remove'', JStr ''Clear'', JStr ''AddAll'', JStr ''ReplaceAll''}"
  shows "isLiveSetOp m v = Inr False"
proof -
  have "isAdd m v = Inr False" "isRemove m v = Inr False" "isClear v = Inr False"
    "isAddAll m v = Inr False" "isReplaceAll m v = Inr False"
    unfolding isAdd_def isRemove_def isClear_def isAddAll_def isReplaceAll_def
    using assms(2) by (auto intro!: tag_mismatch [OF assms(1)])
  then show ?thesis by (simp add: isLiveSetOp_def isEither_def)
qed

lemma isFanOut_others:
  assumes "isFanOut m' v = Inr True"
  shows "isLiveSetOp m v = Inr False \<and> isFanIn m'' v = Inr False"
proof -
  from assms have o: "isObject v"
    by (auto simp: isFanOut_def hasFields_def split: if_splits)
  from assms have "hasFields ((''_tag'', isValue (JStr ''FanOut'')) # [(''value'', m')]) v
      = Inr True"
    by (simp add: isFanOut_def)
  from hasFields_own [OF this o] obtain own where h: "hasOwnProperty v ''_tag'' = Inr own"
    by auto
  from isFanOut_True [OF assms] have t: "getField v ''_tag'' = JStr ''FanOut''" by blast
  from isLiveSetOp_other_tag [OF h] t have "isLiveSetOp m v = Inr False" by simp
  moreover from tag_mismatch [OF h, of "JStr ''FanIn''"] t have "isFanIn m'' v = Inr False"
    by (simp add: isFanIn_def)
  ultimately show ?thesis by blast
qed

lemma fanOut_getState: "fanOut cfg op st = Inr st' \<Longrightarrow> getState st' = getState st"
  by (auto simp: fanOut_def split: if_splits)

lemma fanOut_returns:
  "(pubIsUp st \<longrightarrow> fanOutBuffer st = []) \<Longrightarrow> \<exists>st'. fanOut cfg op st = Inr st'"
  by (auto simp: fanOut_def)

lemma dispatch_FanIn:
  assumes "isOp cfg v = Inr True" and "asLiveSetOp v = Some x"
  shows "dispatch cfg (storeAction (FanIn v)) st =
           Inr (st\<lparr>getState := apply_op (getState st) x,
                   listeners := map (notify (apply_op (getState st) x)) (listeners st)\<rparr>)"
  using assms by (simp add: dispatch_def reducer_def Let_def applyJS_def isOp_def)

text \<open>
  Claim C9. An action that is neither an operation nor a FanIn wrapper of one (so: a
  FanOut wrapper, or an action that none of the three cases of the reducer recognizes)
  leaves the set as it is: whenever the reducer returns, the set is the one it was
  given. For a FanOut wrapper and for an unrecognized action it does return, in every
  state whose buffer is empty while the publish connection is up. So only an operation
  or a FanIn wrapper of one can change the set.
\<close>

theorem reducer_frame:
  assumes "isOp cfg (getField action ''type'') \<noteq> Inr True"
    and "isFanIn (isOp cfg) (getField action ''type'') \<noteq> Inr True"
  shows "(\<forall>st'. reducer cfg action st = Inr st' \<longrightarrow> getState st' = getState st)
       \<and> ((isFanOut (isOp cfg) (getField action ''type'') = Inr True
            \<or> (isOp cfg (getField action ''type'') = Inr False
               \<and> isFanIn (isOp cfg) (getField action ''type'') = Inr False
               \<and> isFanOut (isOp cfg) (getField action ''type'') = Inr False))
           \<and> (pubIsUp st \<longrightarrow> fanOutBuffer st = [])
           \<longrightarrow> (\<exists>st'. reducer cfg action st = Inr st'))"
proof -
  let ?t = "getField action ''type''"
  have a: "getState st' = getState st" if r: "reducer cfg action st = Inr st'" for st'
  proof (cases "isOp cfg ?t")
    case (Inl e)
    with r show ?thesis by (simp add: reducer_def Let_def)
  next
    case local: (Inr b)
    with assms(1) have nb: "\<not> b" by auto
    show ?thesis
    proof (cases "isFanIn (isOp cfg) ?t")
      case (Inl e)
      with r local nb show ?thesis by (simp add: reducer_def Let_def)
    next
      case remote: (Inr b2)
      with assms(2) have nb2: "\<not> b2" by auto
      show ?thesis
      proof (cases "isFanOut (isOp cfg) ?t")
        case (Inl e)
        with r local nb remote nb2 show ?thesis by (simp add: reducer_def Let_def)
      next
        case (Inr b3)
        with r local nb remote nb2 fanOut_getState [of cfg "getField ?t ''value''" st st']
        show ?thesis by (cases b3) (simp_all add: reducer_def Let_def)
      qed
    qed
  qed
  have b: "\<exists>st'. reducer cfg action st = Inr st'"
    if h: "isFanOut (isOp cfg) ?t = Inr True
            \<or> (isOp cfg ?t = Inr False \<and> isFanIn (isOp cfg) ?t = Inr False
               \<and> isFanOut (isOp cfg) ?t = Inr False)"
      and i: "pubIsUp st \<longrightarrow> fanOutBuffer st = []"
  proof -
    from h have "isOp cfg ?t = Inr False \<and> isFanIn (isOp cfg) ?t = Inr False"
      using isFanOut_others [of "isOp cfg" ?t "total (typeMatcher cfg)" "isOp cfg"]
      by (auto simp: isOp_def)
    then have "reducer cfg action st =
        (case isFanOut (isOp cfg) ?t of Inl e \<Rightarrow> Inl e
         | Inr out \<Rightarrow> if out then fanOut cfg (getField ?t ''value'') st else Inr st)"
      by (simp add: reducer_def Let_def)
    with h fanOut_returns [OF i] show ?thesis by auto
  qed
  show ?thesis
  proof (intro conjI allI impI)
    fix st' assume "reducer cfg action st = Inr st'"
    then show "getState st' = getState st" by (rule a)
  next
    assume "(isFanOut (isOp cfg) ?t = Inr True
            \<or> (isOp cfg ?t = Inr False \<and> isFanIn (isOp cfg) ?t = Inr False
               \<and> isFanOut (isOp cfg) ?t = Inr False))
           \<and> (pubIsUp st \<longrightarrow> fanOutBuffer st = [])"
    then show "\<exists>st'. reducer cfg action st = Inr st'" using b by blast
  qed
qed

theorem reducer_frame_witness:
  "isOp (numbersConfig ''k'')
       (getField (storeAction (FanOut (opObject (Add (JNum 1))))) ''type'') \<noteq> Inr True
   \<and> isFanIn (isOp (numbersConfig ''k''))
       (getField (storeAction (FanOut (opObject (Add (JNum 1))))) ''type'') \<noteq> Inr True
   \<and> isFanOut (isOp (numbersConfig ''k''))
       (getField (storeAction (FanOut (opObject (Add (JNum 1))))) ''type'') = Inr True
   \<and> fanOutBuffer (createLiveStore (numbersConfig ''k'')) = []
   \<and> (\<exists>st'. reducer (numbersConfig ''k'') (storeAction (FanOut (opObject (Add (JNum 1)))))
               (createLiveStore (numbersConfig ''k'')) = Inr st'
            \<and> getState st' = getState (createLiveStore (numbersConfig ''k'')))"
proof -
  let ?c = "numbersConfig ''k''"
  let ?a = "storeAction (FanOut (opObject (Add (JNum 1))))"
  have h1: "isOp ?c (getField ?a ''type'') \<noteq> Inr True"
    by (simp add: isOp_def)
  have h2: "isFanIn (isOp ?c) (getField ?a ''type'') \<noteq> Inr True"
    by simp
  have h3: "isFanOut (isOp ?c) (getField ?a ''type'') = Inr True"
    by (simp add: isOp_opObject numbersConfig_def isNumber_def del: opObject.simps)
  have i: "fanOutBuffer (createLiveStore ?c) = []"
    by (simp add: createLiveStore_def)
  from reducer_frame [OF h1 h2, of "createLiveStore ?c"] h1 h2 h3 i
  show ?thesis by blast
qed

section \<open>Scenarios, evaluated\<close>

lemmas store_defs = numbersConfig_def anyConfig_def createLiveStore_def smembersCallback_def
  seedBaseline_def asStrings_def bulkOf_def JSON_parse_def dispatch_def reducer_def fanOut_def
  forward_def storeWrite_def applyJS_def asLiveSetOp_def flushFanInBuffer_def
  flushFanOutBuffer_def notify_def storeAction_def FanIn_def FanOut_def isNumber_def Let_def

text \<open>
  Claim C2. A message that arrives during a seed load is to be buffered and replayed
  after the baseline. The \<open>message\<close> handler dispatches it at once instead (it does not
  go through \<open>fanIn\<close>): with \<open>Add(99)\<close> arriving between the subscription and the
  answer \<open>["1","2","3"]\<close> of \<open>smembers\<close>, the baseline overwrites it and the final set is
  \<open>{1,2,3}\<close>, without \<open>99\<close>.
\<close>

theorem seed_load_message_not_buffered:
  "run (numbersConfig ''k'')
     [Subscribed ''k'',
      Message ''k'' (Some (TObj [(''_tag'', TStr ''Add''), (''value'', TNum 99)])),
      SmembersReply False (RMulti [RBulk (Some (TNum 1)), RBulk (Some (TNum 2)),
                                   RBulk (Some (TNum 3))])]
     (createLiveStore (numbersConfig ''k''))
   = Inr \<lparr>getState = {JNum 1, JNum 2, JNum 3}, listeners = [], pubIsUp = False,
           subIsUp = True, fanOutBuffer = [], isLoadingSeed = False, fanInBuffer = [],
           sent = [SUBSCRIBE ''k'', SMEMBERS ''k''], allocated = 1\<rparr>"
  by (simp add: store_defs matcher_defs)

text \<open>
  Claim C4. A failed \<open>smembers\<close> during a seed load is to be reported. The callback does
  nothing on \<open>err\<close>: the run goes on without a failure, and the store is the one a seed
  load leaves that never fetched anything; no field records the error.
\<close>

theorem seed_fetch_error_ignored:
  "run (numbersConfig ''k'') [Subscribed ''k'', SmembersReply True RNil]
     (createLiveStore (numbersConfig ''k''))
   = Inr \<lparr>getState = {}, listeners = [], pubIsUp = False, subIsUp = True,
           fanOutBuffer = [], isLoadingSeed = False, fanInBuffer = [],
           sent = [SUBSCRIBE ''k'', SMEMBERS ''k''], allocated = 0\<rparr>"
  by (simp add: store_defs matcher_defs)


text \<open>
  Claim C7. A payload with an unrecognized tag is to be dropped without an error. The
  recognizer asks \<open>val.hasOwnProperty(key)\<close> of the parsed value itself: on the payload
  \<open>{"_tag":"Swap","hasOwnProperty":1}\<close> the property found is the number \<open>1\<close>, the call
  throws a TypeError, and the \<open>message\<close> handler, which has no guard around the
  recognizer, ends with it.
\<close>

theorem payload_with_hasOwnProperty_throws:
  "on (numbersConfig ''k'')
      (Message ''k'' (Some (TObj [(''_tag'', TStr ''Swap''), (''hasOwnProperty'', TNum 1)])))
      (createLiveStore (numbersConfig ''k''))
   = Inl TypeError"
  by (simp add: store_defs matcher_defs)

lemma parsed_arrays_are_distinct:
  "run (anyConfig ''k'')
     [Message ''k'' (Some (TObj [(''_tag'', TStr ''Add''), (''value'', TArr [TNum 1])])),
      Message ''k'' (Some (TObj [(''_tag'', TStr ''Add''), (''value'', TArr [TNum 1])])),
      Message ''k'' (Some (TObj [(''_tag'', TStr ''Remove''), (''value'', TArr [TNum 1])]))]
     (createLiveStore (anyConfig ''k''))
   = Inr \<lparr>getState = {JArr (Parsed 3) [JNum 1], JArr (Parsed 1) [JNum 1]}, listeners = [],
           pubIsUp = False, subIsUp = False, fanOutBuffer = [], isLoadingSeed = False,
           fanInBuffer = [], sent = [SUBSCRIBE ''k''], allocated = 6\<rparr>"
  by (simp add: store_defs matcher_defs numeral_3_eq_3)

section \<open>What a dispatch leaves unchanged\<close>

lemma fanOut_frame:
  assumes "fanOut cfg op st = Inr st'"
  shows "listeners st' = listeners st \<and> pubIsUp st' = pubIsUp st \<and> subIsUp st' = subIsUp st
       \<and> isLoadingSeed st' = isLoadingSeed st \<and> fanInBuffer st' = fanInBuffer st
       \<and> getState st' = getState st \<and> allocated st' = allocated st
       \<and> (if pubIsUp st then fanOutBuffer st = [] \<and> fanOutBuffer st' = []
                                \<and> sent st' = sent st @ forward cfg op
           else fanOutBuffer st' = fanOutBuffer st @ [op] \<and> sent st' = sent st)"
  using assms by (auto simp: fanOut_def split: if_splits)

lemma reducer_cases:
  assumes "reducer cfg a st = Inr st'"
  shows "(isOp cfg (getField a ''type'') = Inr True
          \<and> (\<exists>newS st1. fanOut cfg (getField a ''type'') st = Inr st1
                \<and> st' = st1\<lparr>getState := newS\<rparr>))
       \<or> (isFanIn (isOp cfg) (getField a ''type'') = Inr True
          \<and> (\<exists>newS. st' = st\<lparr>getState := newS\<rparr>))
       \<or> (isFanOut (isOp cfg) (getField a ''type'') = Inr True
          \<and> fanOut cfg (getField (getField a ''type'') ''value'') st = Inr st')
       \<or> st' = st"
proof (cases "isOp cfg (getField a ''type'')")
  case (Inl e)
  with assms show ?thesis by (simp add: reducer_def Let_def)
next
  case local: (Inr b)
  show ?thesis
  proof (cases b)
    case True
    with assms local show ?thesis
      by (auto simp: reducer_def Let_def split: sum.splits)
  next
    case nb: False
    show ?thesis
    proof (cases "isFanIn (isOp cfg) (getField a ''type'')")
      case (Inl e)
      with assms local nb show ?thesis by (simp add: reducer_def Let_def)
    next
      case remote: (Inr b2)
      show ?thesis
      proof (cases b2)
        case True
        with assms local nb remote show ?thesis
          by (auto simp: reducer_def Let_def split: sum.splits)
      next
        case nb2: False
        show ?thesis
        proof (cases "isFanOut (isOp cfg) (getField a ''type'')")
          case (Inl e)
          with assms local nb remote nb2 show ?thesis by (simp add: reducer_def Let_def)
        next
          case (Inr b3)
          with assms local nb remote nb2 show ?thesis
            by (cases b3) (simp_all add: reducer_def Let_def)
        qed
      qed
    qed
  qed
qed

lemma reducer_frame_fields:
  assumes "reducer cfg a st = Inr st'"
  shows "listeners st' = listeners st \<and> pubIsUp st' = pubIsUp st \<and> subIsUp st' = subIsUp st
       \<and> isLoadingSeed st' = isLoadingSeed st \<and> fanInBuffer st' = fanInBuffer st
       \<and> allocated st' = allocated st"
  using reducer_cases [OF assms]
proof (elim disjE conjE exE)
  fix newS st1
  assume f: "fanOut cfg (getField a ''type'') st = Inr st1" and e: "st' = st1\<lparr>getState := newS\<rparr>"
  from fanOut_frame [OF f] e show ?thesis by simp
next
  fix newS assume "st' = st\<lparr>getState := newS\<rparr>"
  then show ?thesis by simp
next
  assume f: "fanOut cfg (getField (getField a ''type'') ''value'') st = Inr st'"
  from fanOut_frame [OF f] show ?thesis by simp
next
  assume "st' = st"
  then show ?thesis by simp
qed

lemma reducer_buffer:
  assumes "reducer cfg a st = Inr st'"
  shows "fanOutBuffer st' = fanOutBuffer st
       \<or> (\<not> pubIsUp st \<and> (\<exists>op. isOp cfg op = Inr True
                                 \<and> fanOutBuffer st' = fanOutBuffer st @ [op]))"
  using reducer_cases [OF assms]
proof (elim disjE conjE exE)
  fix newS st1
  assume o: "isOp cfg (getField a ''type'') = Inr True"
    and f: "fanOut cfg (getField a ''type'') st = Inr st1" and e: "st' = st1\<lparr>getState := newS\<rparr>"
  from fanOut_frame [OF f] o e show ?thesis by (cases "pubIsUp st") auto
next
  fix newS assume "st' = st\<lparr>getState := newS\<rparr>"
  then show ?thesis by simp
next
  assume o: "isFanOut (isOp cfg) (getField a ''type'') = Inr True"
    and f: "fanOut cfg (getField (getField a ''type'') ''value'') st = Inr st'"
  from isFanOut_True [OF o] have "isOp cfg (getField (getField a ''type'') ''value'') = Inr True"
    by blast
  with fanOut_frame [OF f] show ?thesis by (cases "pubIsUp st") auto
next
  assume "st' = st"
  then show ?thesis by simp
qed

lemma dispatch_frame:
  assumes "dispatch cfg a st = Inr st'"
  shows "listeners st' = map (notify (getState st')) (listeners st)
       \<and> pubIsUp st' = pubIsUp st \<and> subIsUp st' = subIsUp st
       \<and> isLoadingSeed st' = isLoadingSeed st \<and> fanInBuffer st' = fanInBuffer st
       \<and> allocated st' = allocated st
       \<and> (fanOutBuffer st' = fanOutBuffer st
           \<or> (\<not> pubIsUp st \<and> (\<exists>op. isOp cfg op = Inr True
                                 \<and> fanOutBuffer st' = fanOutBuffer st @ [op])))"
proof -
  from assms obtain st1 where r: "reducer cfg a st = Inr st1"
    and e: "st' = st1\<lparr>listeners := map (notify (getState st1)) (listeners st1)\<rparr>"
    by (auto simp: dispatch_def split: sum.splits)
  show ?thesis using reducer_frame_fields [OF r] reducer_buffer [OF r] e by auto
qed

section \<open>The invariant holds after every run\<close>


lemma storeInv_allocated [simp]: "storeInv cfg (st\<lparr>allocated := n\<rparr>) = storeInv cfg st"
  by (simp add: storeInv_def)

lemma dispatch_inv:
  assumes "storeInv cfg st" and "dispatch cfg a st = Inr st'"
  shows "storeInv cfg st'"
proof -
  note f = dispatch_frame [OF assms(2)]
  have l: "list_all (\<lambda>l. lastSet l = None \<or> lastSet l = Some (getState st')) (listeners st')"
    using f by (simp add: list_all_iff notify_def)
  from f have "fanOutBuffer st' = fanOutBuffer st
       \<or> (\<not> pubIsUp st \<and> (\<exists>op. isOp cfg op = Inr True
                                 \<and> fanOutBuffer st' = fanOutBuffer st @ [op]))"
    by blast
  then have b: "(\<not> pubIsUp st' \<or> fanOutBuffer st' = [])
      \<and> list_all (\<lambda>op. isOp cfg op = Inr True) (fanOutBuffer st')"
    using assms(1) f by (auto simp: storeInv_def)
  from assms(1) f have "fanInBuffer st' = []" by (simp add: storeInv_def)
  with l b show ?thesis by (simp add: storeInv_def)
qed


lemma seedBaseline_inv:
  assumes "storeInv cfg st" and "seedBaseline cfg err v st = Inr st1"
  shows "storeInv cfg st1"
proof (cases err)
  case True
  with assms show ?thesis by (simp add: seedBaseline_def)
next
  case False
  with assms(2) obtain newSet n where
    "dispatch cfg (storeAction (FanIn (opObject (ReplaceAll newSet)))) (st\<lparr>allocated := n\<rparr>)
       = Inr st1"
    by (auto simp: seedBaseline_def split: sum.splits option.splits prod.splits)
  with assms(1) show ?thesis using dispatch_inv [of cfg "st\<lparr>allocated := n\<rparr>"] by simp
qed



section \<open>Dispatch returns\<close>

text \<open>
  In a state of the invariant every dispatch of the store's own actions returns, so the
  only failures of a handler are the SyntaxError of \<open>JSON.parse\<close> and the TypeError of a
  matcher on a received payload.
\<close>

lemma parseAll_failure: "parseAll n ws = Inl x \<Longrightarrow> x = SyntaxError"
  by (induction ws arbitrary: n)
     (auto simp: JSON_parse_def split: option.splits sum.splits prod.splits)

lemma isFanIn_opObject [simp]: "isFanIn m (opObject x) = Inr False"
  by (cases x) (simp_all add: matcher_defs)

lemma isFanOut_opObject [simp]: "isFanOut m (opObject x) = Inr False"
  by (cases x) (simp_all add: matcher_defs)

lemma reducer_op:
  "reducer cfg (storeAction (opObject x)) st =
     (if list_all (typeMatcher cfg) (valuesOf x) then
        (case fanOut cfg (opObject x) st of
           Inl e \<Rightarrow> Inl e
         | Inr st' \<Rightarrow> Inr (st'\<lparr>getState := apply_op (getState st) x\<rparr>))
      else Inr st)"
  by (simp add: reducer_def Let_def isOp_opObject applyJS_def del: opObject.simps)

lemma reducer_FanOut:
  assumes "isOp cfg op = Inr True"
  shows "reducer cfg (storeAction (FanOut op)) st = fanOut cfg op st"
  using assms by (simp add: reducer_def Let_def isOp_def)

lemma dispatch_op_total:
  assumes "\<not> pubIsUp st \<or> fanOutBuffer st = []"
  shows "\<exists>st'. dispatch cfg (storeAction (opObject x)) st = Inr st'"
proof -
  from assms obtain st1 where "fanOut cfg (opObject x) st = Inr st1"
    by (cases "pubIsUp st") (auto simp: fanOut_def)
  then show ?thesis by (simp add: dispatch_def reducer_op del: opObject.simps)
qed

lemma dispatch_FanIn_total:
  assumes "isOp cfg op = Inr True"
  shows "\<exists>st'. dispatch cfg (storeAction (FanIn op)) st = Inr st'"
proof -
  from assms isLiveSetOp_asLiveSetOp [of "total (typeMatcher cfg)" op]
  obtain x where "asLiveSetOp op = Some x" by (auto simp: isOp_def)
  from dispatch_FanIn [OF assms this] show ?thesis by blast
qed

lemma flushFanOut_total:
  assumes "list_all (\<lambda>op. isOp cfg op = Inr True) ops"
    and "pubIsUp st" and "fanOutBuffer st = []"
  shows "\<exists>st'. dispatchEach cfg (map (\<lambda>op. storeAction (FanOut op)) ops) st = Inr st'"
  using assms
proof (induction ops arbitrary: st)
  case Nil
  then show ?case by simp
next
  case (Cons op ops)
  let ?st = "st\<lparr>sent := sent st @ forward cfg op,
                 listeners := map (notify (getState st)) (listeners st)\<rparr>"
  from Cons.prems have d: "dispatch cfg (storeAction (FanOut op)) st = Inr ?st"
    by (simp add: dispatch_def reducer_FanOut fanOut_def)
  from Cons.prems have "list_all (\<lambda>op. isOp cfg op = Inr True) ops" "pubIsUp ?st"
    "fanOutBuffer ?st = []" by simp_all
  from Cons.IH [OF this] d show ?case by simp
qed

lemma isFanOut_FanIn [simp]: "isFanOut m (FanIn v) = Inr False"
  by (simp add: matcher_defs FanIn_def)

lemma isOp_FanIn [simp]: "isOp cfg (FanIn v) = Inr False"
  by (simp add: isOp_def)

lemma isOp_FanOut [simp]: "isOp cfg (FanOut v) = Inr False"
  by (simp add: isOp_def)

lemma dispatch_FanIn_opObject_total:
  "\<exists>st'. dispatch cfg (storeAction (FanIn (opObject x))) st = Inr st'"
proof (cases "list_all (typeMatcher cfg) (valuesOf x)")
  case True
  then have "isOp cfg (opObject x) = Inr True" by (simp add: isOp_opObject)
  from dispatch_FanIn_total [OF this] show ?thesis .
next
  case False
  then show ?thesis
    by (simp add: dispatch_def reducer_def Let_def isOp_opObject del: opObject.simps)
qed

lemma seedBaseline_failure:
  assumes "seedBaseline cfg err v st = Inl y"
  shows "y = SyntaxError"
proof (cases err)
  case True
  with assms show ?thesis by (simp add: seedBaseline_def)
next
  case False
  show ?thesis
  proof (cases "case asStrings v of Some items \<Rightarrow> parseAll (allocated st) items
                 | None \<Rightarrow> Inr ([], allocated st)")
    case (Inl z)
    then have "z = SyntaxError"
      using parseAll_failure by (auto split: option.splits)
    with Inl assms False show ?thesis by (simp add: seedBaseline_def)
  next
    case (Inr p)
    obtain newSet n where p: "p = (newSet, n)" by (cases p)
    from dispatch_FanIn_opObject_total [of cfg "ReplaceAll newSet" "st\<lparr>allocated := n\<rparr>"]
      Inr p assms False
    show ?thesis by (auto simp: seedBaseline_def simp del: opObject.simps)
  qed
qed

lemma hasOwnProperty_failure: "hasOwnProperty v k = Inl y \<Longrightarrow> y = TypeError"
  by (cases v) (auto simp: hasOwnProperty_def split: if_splits)

lemma matchFields_failure:
  "\<forall>f \<in> set fs. \<forall>w z. snd f w = Inl z \<longrightarrow> z = TypeError \<Longrightarrow>
     matchFields fs v = Inl y \<Longrightarrow> y = TypeError"
proof (induction fs)
  case Nil
  then show ?case by simp
next
  case (Cons f fs)
  show ?case
  proof (cases "hasOwnProperty v (fst f)")
    case (Inl z)
    with Cons.prems(2) hasOwnProperty_failure [OF Inl] show ?thesis by simp
  next
    case own: (Inr own)
    show ?thesis
    proof (cases "(snd f) (if own then getField v (fst f) else JUndefined)")
      case (Inl z)
      with Cons.prems(1) have "z = TypeError" by auto
      with Inl own Cons.prems(2) show ?thesis by simp
    next
      case (Inr ok)
      with own Cons.prems(2) have "matchFields fs v = Inl y"
        by (auto split: if_splits)
      moreover from Cons.prems(1)
      have "\<forall>f \<in> set fs. \<forall>w z. snd f w = Inl z \<longrightarrow> z = TypeError" by simp
      ultimately show ?thesis using Cons.IH by blast
    qed
  qed
qed

lemma hasFields_failure:
  assumes "\<forall>f \<in> set fs. \<forall>w z. snd f w = Inl z \<longrightarrow> z = TypeError"
    and "hasFields fs v = Inl y"
  shows "y = TypeError"
  using assms matchFields_failure [of fs v y] by (auto simp: hasFields_def split: if_splits)

lemma isArrayOf_total_failure: "isArrayOf (total m) v \<noteq> Inl y"
  by (cases v) (simp_all add: isArrayOf_def)

lemma isEither_failure:
  assumes "isEither a b v = Inl y"
  shows "a v = Inl y \<or> b v = Inl y"
  using assms by (auto simp: isEither_def split: sum.splits if_splits)

lemma isOp_failure:
  assumes "isOp cfg v = Inl y"
  shows "y = TypeError"
proof -
  let ?m = "total (typeMatcher cfg)"
  from assms have "isAdd ?m v = Inl y \<or> isRemove ?m v = Inl y \<or> isClear v = Inl y
      \<or> isAddAll ?m v = Inl y \<or> isReplaceAll ?m v = Inl y"
    unfolding isOp_def isLiveSetOp_def by (blast dest: isEither_failure)
  moreover have "y = TypeError" if "hasFields fs v = Inl y"
    and "\<forall>f \<in> set fs. \<forall>w z. snd f w \<noteq> Inl z" for fs
    using hasFields_failure [of fs v y] that by simp
  ultimately show ?thesis
    unfolding isAdd_def isRemove_def isClear_def isAddAll_def isReplaceAll_def
    by (auto simp: isValue_def total_def isArrayOf_total_failure)
qed

lemma on_failure:
  assumes "storeInv cfg st" and "on cfg e st = Inl x"
  shows "x = SyntaxError \<or> x = TypeError"
proof -
  have up: "\<not> pubIsUp st \<or> fanOutBuffer st = []" using assms(1) by (simp add: storeInv_def)
  show ?thesis
  proof (cases e)
    case (PubFail y)
    with assms show ?thesis by simp
  next
    case (SubFail y)
    with assms show ?thesis by simp
  next
    case PubReady
    from assms(1) have "list_all (\<lambda>op. isOp cfg op = Inr True) (fanOutBuffer st)"
      by (simp add: storeInv_def)
    from flushFanOut_total [OF this, of "st\<lparr>pubIsUp := True, fanOutBuffer := []\<rparr>"]
      assms(2) PubReady
    show ?thesis by (auto simp: flushFanOutBuffer_def)
  next
    case (Subscribed ch)
    with assms show ?thesis by (simp split: if_splits)
  next
    case (SmembersReply err v)
    show ?thesis
    proof (cases "seedBaseline cfg err v st")
      case (Inl y)
      from seedBaseline_failure [OF Inl] have "y = SyntaxError" .
      with Inl assms(2) SmembersReply show ?thesis by (simp add: smembersCallback_def)
    next
      case (Inr st1)
      have "storeInv cfg st1" using seedBaseline_inv [OF assms(1) Inr] .
      then have "fanInBuffer st1 = []" by (simp add: storeInv_def)
      with Inr assms(2) SmembersReply show ?thesis
        by (simp add: smembersCallback_def flushFanInBuffer_def)
    qed
  next
    case (Message ch w)
    show ?thesis
    proof (cases "ch = updatesChan cfg")
      case False
      with assms(2) Message show ?thesis by simp
    next
      case True
      show ?thesis
      proof (cases "JSON_parse (allocated st) w")
        case (Inl y)
        with assms(2) Message True show ?thesis
          by (auto simp: JSON_parse_def split: option.splits)
      next
        case (Inr p)
        obtain op n where p: "p = (op, n)" by (cases p)
        show ?thesis
        proof (cases "isOp cfg op")
          case (Inl y)
          from isOp_failure [OF this] Inl Inr p assms(2) Message True show ?thesis by simp
        next
          case ok: (Inr b)
          from dispatch_FanIn_total [of cfg op "st\<lparr>allocated := n\<rparr>"] ok Inr p assms(2)
            Message True
          show ?thesis by (cases b) auto
        qed
      qed
    qed
  next
    case (Call y)
    with assms(2) dispatch_op_total [OF up, of cfg y] show ?thesis by auto
  next
    case Subscribe
    with assms show ?thesis by simp
  qed
qed

section \<open>Incoming messages\<close>

lemma isArrayOf_total:
  "isArrayOf (total m) w = Inr (case w of JArr r xs \<Rightarrow> list_all m xs | _ \<Rightarrow> False)"
  by (cases w) (simp_all add: isArrayOf_def)

lemma matchFields_step:
  assumes "hasOwnProperty v k = Inr own"
  shows "matchFields ((k, mm) # fs) v =
           (case mm (getField v k) of
              Inl e \<Rightarrow> Inl e
            | Inr ok \<Rightarrow> if ok then matchFields fs v else Inr False)"
proof (cases own)
  case True
  with assms show ?thesis by simp
next
  case False
  with ownField [OF assms] have "getField v k = JUndefined" by simp
  with False assms show ?thesis by simp
qed

lemma hasFields_tag_only:
  assumes "isObject v" and "hasOwnProperty v ''_tag'' = Inr own"
  shows "hasFields [(''_tag'', isValue x)] v = Inr (getField v ''_tag'' = x)"
  using assms(1)
  by (simp add: hasFields_def matchFields_step [OF assms(2)] isValue_def
        del: matchFields.simps(2))

lemma hasFields_tag_field:
  assumes "isObject v" and "hasOwnProperty v ''_tag'' = Inr own"
  shows "hasFields [(''_tag'', isValue x), (k, mm)] v
           = (if getField v ''_tag'' = x then mm (getField v k) else Inr False)"
proof -
  from hasOwnProperty_any [OF assms(2)] obtain own' where o: "hasOwnProperty v k = Inr own'"
    by blast
  show ?thesis
    using assms(1)
    by (cases "mm (getField v k)")
       (simp_all add: hasFields_def matchFields_step [OF assms(2)] matchFields_step [OF o]
          isValue_def del: matchFields.simps(2))
qed

lemma isLiveSetOp_eval:
  assumes "isObject v" and "hasOwnProperty v ''_tag'' = Inr own"
  shows "isLiveSetOp (total m) v =
     Inr ((getField v ''_tag'' = JStr ''Add'' \<and> m (getField v ''value''))
        \<or> (getField v ''_tag'' = JStr ''Remove'' \<and> m (getField v ''value''))
        \<or> getField v ''_tag'' = JStr ''Clear''
        \<or> (getField v ''_tag'' = JStr ''AddAll''
            \<and> (case getField v ''values'' of JArr r xs \<Rightarrow> list_all m xs | _ \<Rightarrow> False))
        \<or> (getField v ''_tag'' = JStr ''ReplaceAll''
            \<and> (case getField v ''values'' of JArr r xs \<Rightarrow> list_all m xs | _ \<Rightarrow> False)))"
  by (simp add: isLiveSetOp_def isEither_def isAdd_def isRemove_def isClear_def isAddAll_def
        isReplaceAll_def hasFields_tag_field [OF assms] hasFields_tag_only [OF assms]
        isArrayOf_total total_def)

lemma isLiveSetOp_not_object: "\<not> isObject v \<Longrightarrow> isLiveSetOp m v = Inr False"
  by (simp add: isLiveSetOp_def isEither_def isAdd_def isRemove_def isClear_def isAddAll_def
        isReplaceAll_def hasFields_def)

text \<open>
  A payload whose parsed value has no own property \<open>hasOwnProperty\<close>, and that has a tag
  that is none of the five or carries a value the configured matcher rejects, is not
  recognized and is dropped: the handler returns, and the set, the buffers and the
  listeners are as they were.
\<close>

lemma unrecognized_payload_dropped:
  assumes "JSON_parse (allocated st) w = Inr (v, n)"
    and "\<not> isObject v \<or> hasOwnProperty v ''_tag'' = Inr own"
    and "getField v ''_tag'' \<notin> {JStr ''Add'', JStr ''Remove'', JStr ''Clear'',
                                  JStr ''AddAll'', JStr ''ReplaceAll''}
       \<or> (getField v ''_tag'' \<in> {JStr ''Add'', JStr ''Remove''}
            \<and> \<not> typeMatcher cfg (getField v ''value''))
       \<or> (getField v ''_tag'' \<in> {JStr ''AddAll'', JStr ''ReplaceAll''}
            \<and> (\<exists>r vs. getField v ''values'' = JArr r vs \<and> \<not> list_all (typeMatcher cfg) vs))"
  shows "isOp cfg v = Inr False
       \<and> on cfg (Message ch w) st
           = Inr (if ch = updatesChan cfg then st\<lparr>allocated := n\<rparr> else st)"
proof -
  have "isOp cfg v = Inr False"
  proof (cases "isObject v")
    case False
    then show ?thesis by (simp add: isOp_def isLiveSetOp_not_object)
  next
    case True
    with assms(2) have h: "hasOwnProperty v ''_tag'' = Inr own" by simp
    from assms(3) show ?thesis
      unfolding isOp_def isLiveSetOp_eval [OF True h] by auto
  qed
  with assms(1) show ?thesis by simp
qed

section \<open>Subscribers\<close>



section \<open>The seed load\<close>

text \<open>
  Claim C10. When \<open>smembers\<close> succeeds with a value that is not an array of strings, the
  baseline is \<open>ReplaceAll([])\<close>: whatever the set was, after the baseline it is empty
  (and the listeners are notified of the empty set); with an empty fan-in buffer that is
  also the store the whole callback returns.
\<close>

theorem seed_baseline_not_strings:
  assumes "asStrings value = None"
  shows "seedBaseline cfg False value st
           = Inr (st\<lparr>getState := {}, listeners := map (notify {}) (listeners st)\<rparr>)
       \<and> (fanInBuffer st = [] \<longrightarrow>
            on cfg (SmembersReply False value) st
              = Inr (st\<lparr>getState := {}, listeners := map (notify {}) (listeners st),
                       isLoadingSeed := False\<rparr>))"
proof -
  have o: "isOp cfg (opObject (ReplaceAll [])) = Inr True"
    using isOp_opObject [of cfg "ReplaceAll []"] by simp
  have b: "seedBaseline cfg False value st
           = Inr (st\<lparr>getState := {}, listeners := map (notify {}) (listeners st)\<rparr>)"
    using assms dispatch_FanIn [OF o asLiveSetOp_opObject, of "st\<lparr>allocated := allocated st\<rparr>"]
    by (simp add: seedBaseline_def)
  then show ?thesis
    by (simp add: smembersCallback_def flushFanInBuffer_def)
qed

theorem seed_baseline_not_strings_witness:
  "asStrings (RMulti [RBulk (Some (TNum 1)), RInt 2]) = None
   \<and> fanInBuffer ((createLiveStore (numbersConfig ''k''))\<lparr>getState := {JNum 7}\<rparr>) = []
   \<and> on (numbersConfig ''k'') (SmembersReply False (RMulti [RBulk (Some (TNum 1)), RInt 2]))
        ((createLiveStore (numbersConfig ''k''))\<lparr>getState := {JNum 7}\<rparr>)
      = Inr ((createLiveStore (numbersConfig ''k''))\<lparr>getState := {}\<rparr>)"
proof -
  have a: "asStrings (RMulti [RBulk (Some (TNum 1)), RInt 2]) = None"
    by (simp add: asStrings_def bulkOf_def)
  have f: "fanInBuffer ((createLiveStore (numbersConfig ''k''))\<lparr>getState := {JNum 7}\<rparr>) = []"
    by (simp add: createLiveStore_def)
  from seed_baseline_not_strings [OF a, of "numbersConfig ''k''"
      "(createLiveStore (numbersConfig ''k''))\<lparr>getState := {JNum 7}\<rparr>"] a f
  show ?thesis by (simp add: createLiveStore_def)
qed

section \<open>Serialization of operations\<close>

lemma stringify_build:
  "JSON_stringify (fst (build t n)) = Some t"
  "map (\<lambda>x. case JSON_stringify x of None \<Rightarrow> TNull | Some t \<Rightarrow> t) (fst (buildAll ts n)) = ts"
  "concat (map (\<lambda>(k, v). case JSON_stringify v of None \<Rightarrow> [] | Some t \<Rightarrow> [(k, t)])
             (fst (buildFields kts n))) = kts"
  by (induction t n and ts n and kts n rule: build_buildAll_buildFields.induct)
     (auto split: prod.splits)

lemma strip_build:
  "strip (fst (build t n)) = strip (fst (build t m))"
  "map strip (fst (buildAll ts n)) = map strip (fst (buildAll ts m))"
  "map (\<lambda>(k, v). (k, strip v)) (fst (buildFields kts n))
     = map (\<lambda>(k, v). (k, strip v)) (fst (buildFields kts m))"
proof (induction t n and ts n and kts n arbitrary: m and m and m
        rule: build_buildAll_buildFields.induct)
  case (5 ts n)
  from 5 [of "Suc m"] show ?case by (auto split: prod.splits)
next
  case (6 kts n)
  from 6 [of "Suc m"] show ?case by (auto split: prod.splits)
next
  case (8 t ts n)
  obtain x n1 where a: "build t n = (x, n1)" by (cases "build t n")
  obtain y m1 where b: "build t m = (y, m1)" by (cases "build t m")
  from 8(1) [of m] a b have "strip x = strip y" by simp
  moreover from 8(2) [OF a [symmetric], of m1]
  have "map strip (fst (buildAll ts n1)) = map strip (fst (buildAll ts m1))" .
  ultimately show ?case using a b by (auto split: prod.splits)
next
  case (10 kt kts n)
  obtain x n1 where a: "build (snd kt) n = (x, n1)" by (cases "build (snd kt) n")
  obtain y m1 where b: "build (snd kt) m = (y, m1)" by (cases "build (snd kt) m")
  from 10(1) [of m] a b have "strip x = strip y" by simp
  moreover from 10(2) [OF a [symmetric], of m1]
  have "map (\<lambda>(k, v). (k, strip v)) (fst (buildFields kts n1))
      = map (\<lambda>(k, v). (k, strip v)) (fst (buildFields kts m1))" .
  ultimately show ?case using a b by (auto split: prod.splits)
qed simp_all

lemma survives_build:
  assumes "survives v"
  shows "\<exists>t. JSON_stringify v = Some t \<and> deepEqual (fst (build t n)) v"
proof -
  from assms obtain t where t: "JSON_stringify v = Some t" "deepEqual (fst (build t 0)) v"
    by (auto simp: survives_def split: option.splits)
  with strip_build(1) [of t n 0] show ?thesis by (simp add: deepEqual_def)
qed

lemma survives_primitive:
  assumes "survives v" and "isPrimitive v"
  shows "\<exists>t. JSON_stringify v = Some t \<and> build t n = (v, n)"
  using assms by (cases v) (auto simp: survives_def isPrimitive_def)

lemma survives_value:
  assumes "survives v"
  shows "\<exists>t v' n'. JSON_stringify v = Some t \<and> build t n = (v', n') \<and> deepEqual v' v
           \<and> (isPrimitive v \<longrightarrow> v' = v \<and> n' = n)"
proof -
  from survives_build [OF assms, of n] obtain t where
    t: "JSON_stringify v = Some t" "deepEqual (fst (build t n)) v" by blast
  obtain v' n' where b: "build t n = (v', n')" by (cases "build t n")
  from survives_primitive [OF assms, of n] t b
  have "isPrimitive v \<longrightarrow> v' = v \<and> n' = n" by auto
  with t b show ?thesis by auto
qed

lemma survives_values:
  assumes "list_all survives vs"
  shows "\<exists>vs' n'. buildAll (map (\<lambda>x. case JSON_stringify x of None \<Rightarrow> TNull | Some t \<Rightarrow> t) vs) n
                     = (vs', n')
           \<and> list_all2 deepEqual vs' vs
           \<and> (list_all isPrimitive vs \<longrightarrow> vs' = vs \<and> n' = n)"
  using assms
proof (induction vs arbitrary: n)
  case Nil
  then show ?case by simp
next
  case (Cons v vs)
  from Cons.prems have sv: "survives v" and svs: "list_all survives vs" by simp_all
  from survives_value [OF sv, of n] obtain t v' n1 where
    v: "JSON_stringify v = Some t" "build t n = (v', n1)" "deepEqual v' v"
       "isPrimitive v \<longrightarrow> v' = v \<and> n1 = n"
    by blast
  from Cons.IH [OF svs, of n1] obtain vs' n2 where
    vs: "buildAll (map (\<lambda>x. case JSON_stringify x of None \<Rightarrow> TNull | Some t \<Rightarrow> t) vs) n1
           = (vs', n2)"
        "list_all2 deepEqual vs' vs" "list_all isPrimitive vs \<longrightarrow> vs' = vs \<and> n2 = n1"
    by blast
  from v vs show ?case by auto
qed

lemma deepEqual_strip: "list_all2 deepEqual vs' vs \<Longrightarrow> map strip vs' = map strip vs"
  by (induction vs' vs rule: list_all2_induct) (simp_all add: deepEqual_def)

lemma deepEqual_accepted:
  "list_all2 deepEqual vs' vs \<Longrightarrow> \<forall>v \<in> set vs. \<forall>w. deepEqual w v \<longrightarrow> P w \<Longrightarrow>
     list_all P vs'"
  by (induction vs' vs rule: list_all2_induct) simp_all

lemma decode_encoded:
  assumes "list_all survives (valuesOf x)"
  shows "\<exists>t op n' x'. JSON_stringify (opObject x) = Some t \<and> build t n = (op, n')
           \<and> asLiveSetOp op = Some x'
           \<and> list_all2 deepEqual (valuesOf x') (valuesOf x)
           \<and> map_LiveSetOp strip x' = map_LiveSetOp strip x
           \<and> (list_all isPrimitive (valuesOf x) \<longrightarrow> x' = x)
           \<and> isLiveSetOp (total m) op = Inr (list_all m (valuesOf x'))"
proof (cases x)
  case (Add v)
  with assms have "survives v" by simp
  from survives_value [OF this, of "Suc n"] obtain t v' n' where
    "JSON_stringify v = Some t" "build t (Suc n) = (v', n')" "deepEqual v' v"
    "isPrimitive v \<longrightarrow> v' = v \<and> n' = Suc n"
    by blast
  with Add show ?thesis
    by (auto simp: asLiveSetOp_def matcher_defs deepEqual_def)
next
  case (Remove v)
  with assms have "survives v" by simp
  from survives_value [OF this, of "Suc n"] obtain t v' n' where
    "JSON_stringify v = Some t" "build t (Suc n) = (v', n')" "deepEqual v' v"
    "isPrimitive v \<longrightarrow> v' = v \<and> n' = Suc n"
    by blast
  with Remove show ?thesis
    by (auto simp: asLiveSetOp_def matcher_defs deepEqual_def)
next
  case Clear
  then show ?thesis by (simp add: asLiveSetOp_def matcher_defs)
next
  case (AddAll vs)
  with assms have "list_all survives vs" by simp
  from survives_values [OF this, of "Suc (Suc n)"] obtain vs' n' where
    "buildAll (map (\<lambda>x. case JSON_stringify x of None \<Rightarrow> TNull | Some t \<Rightarrow> t) vs) (Suc (Suc n))
       = (vs', n')"
    "list_all2 deepEqual vs' vs" "list_all isPrimitive vs \<longrightarrow> vs' = vs \<and> n' = Suc (Suc n)"
    by blast
  with AddAll deepEqual_strip [of vs' vs] show ?thesis
    by (auto simp: asLiveSetOp_def matcher_defs)
next
  case (ReplaceAll vs)
  with assms have "list_all survives vs" by simp
  from survives_values [OF this, of "Suc (Suc n)"] obtain vs' n' where
    "buildAll (map (\<lambda>x. case JSON_stringify x of None \<Rightarrow> TNull | Some t \<Rightarrow> t) vs) (Suc (Suc n))
       = (vs', n')"
    "list_all2 deepEqual vs' vs" "list_all isPrimitive vs \<longrightarrow> vs' = vs \<and> n' = Suc (Suc n)"
    by blast
  with ReplaceAll deepEqual_strip [of vs' vs] show ?thesis
    by (auto simp: asLiveSetOp_def matcher_defs)
qed

text \<open>
  Claim C6. For an operation whose values survive the serialization and which the type
  matcher accepts whatever their identity, the text \<open>fanOut\<close> publishes parses to an
  object that the recognizer accepts and that reads as the operation again: the same
  variant, with values deeply equal to the original ones, and the very same values
  when they are primitive. The \<open>message\<close> handler applies this decoded operation to the
  set.
\<close>

theorem operation_roundtrip:
  assumes "list_all (\<lambda>v. survives v \<and> (\<forall>w. deepEqual w v \<longrightarrow> typeMatcher cfg w)) (valuesOf x)"
  shows "\<exists>t op n' x'.
           JSON_stringify (opObject x) = Some t
         \<and> JSON_parse (allocated st) (Some t) = Inr (op, n')
         \<and> JSON_stringify op = Some t
         \<and> isOp cfg op = Inr True
         \<and> asLiveSetOp op = Some x'
         \<and> map_LiveSetOp strip x' = map_LiveSetOp strip x
         \<and> (list_all isPrimitive (valuesOf x) \<longrightarrow> x' = x)
         \<and> on cfg (Message (updatesChan cfg) (Some t)) st
             = Inr (st\<lparr>allocated := n', getState := apply_op (getState st) x',
                      listeners := map (notify (apply_op (getState st) x')) (listeners st)\<rparr>)"
proof -
  from assms have s: "list_all survives (valuesOf x)"
    and m: "\<forall>v \<in> set (valuesOf x). \<forall>w. deepEqual w v \<longrightarrow> typeMatcher cfg w"
    by (simp_all add: list_all_iff)
  from decode_encoded [OF s, of "allocated st" "typeMatcher cfg"] obtain t op n' x' where
    d: "JSON_stringify (opObject x) = Some t" "build t (allocated st) = (op, n')"
       "asLiveSetOp op = Some x'" "list_all2 deepEqual (valuesOf x') (valuesOf x)"
       "map_LiveSetOp strip x' = map_LiveSetOp strip x"
       "list_all isPrimitive (valuesOf x) \<longrightarrow> x' = x"
       "isLiveSetOp (total (typeMatcher cfg)) op = Inr (list_all (typeMatcher cfg) (valuesOf x'))"
    by blast
  from deepEqual_accepted [OF d(4) m] have "list_all (typeMatcher cfg) (valuesOf x')" .
  with d(7) have o: "isOp cfg op = Inr True" by (simp add: isOp_def)
  from stringify_build(1) [of t "allocated st"] d(2) have e: "JSON_stringify op = Some t"
    by simp
  from dispatch_FanIn [OF o d(3), of "st\<lparr>allocated := n'\<rparr>"] d(2) o
  have h: "on cfg (Message (updatesChan cfg) (Some t)) st
             = Inr (st\<lparr>allocated := n', getState := apply_op (getState st) x',
                      listeners := map (notify (apply_op (getState st) x')) (listeners st)\<rparr>)"
    by (simp add: JSON_parse_def)
  from d e o h show ?thesis by (simp add: JSON_parse_def)
qed


theorem operation_roundtrip_witness:
  "survives (JArr (App 0) [JNum 1])
   \<and> JSON_stringify (opObject (Add (JArr (App 0) [JNum 1])))
       = Some (TObj [(''_tag'', TStr ''Add''), (''value'', TArr [TNum 1])])
   \<and> on (anyConfig ''k'')
        (Message ''k'' (Some (TObj [(''_tag'', TStr ''Add''), (''value'', TArr [TNum 1])])))
        (createLiveStore (anyConfig ''k''))
       = Inr \<lparr>getState = {JArr (Parsed 1) [JNum 1]}, listeners = [], pubIsUp = False,
               subIsUp = False, fanOutBuffer = [], isLoadingSeed = False, fanInBuffer = [],
               sent = [SUBSCRIBE ''k''], allocated = 2\<rparr>
   \<and> strip (JArr (Parsed 1) [JNum 1]) = strip (JArr (App 0) [JNum 1])"
proof -
  let ?c = "anyConfig ''k''"
  let ?x = "Add (JArr (App 0) [JNum 1])"
  have s: "survives (JArr (App 0) [JNum 1])"
    by (simp add: survives_def deepEqual_def)
  then have a: "list_all (\<lambda>v. survives v \<and> (\<forall>w. deepEqual w v \<longrightarrow> typeMatcher ?c w))
                  (valuesOf ?x)"
    by (simp add: anyConfig_def)
  from operation_roundtrip [OF a, of "createLiveStore ?c"] obtain t op n' x' where
    "JSON_stringify (opObject ?x) = Some t"
    "JSON_parse (allocated (createLiveStore ?c)) (Some t) = Inr (op, n')"
    "asLiveSetOp op = Some x'"
    "on ?c (Message (updatesChan ?c) (Some t)) (createLiveStore ?c)
       = Inr ((createLiveStore ?c)\<lparr>allocated := n',
                getState := apply_op (getState (createLiveStore ?c)) x',
                listeners := map (notify (apply_op (getState (createLiveStore ?c)) x'))
                               (listeners (createLiveStore ?c))\<rparr>)"
    by blast
  then show ?thesis
    using s by (auto simp: JSON_parse_def asLiveSetOp_def createLiveStore_def anyConfig_def)
qed

section \<open>The outbound queue\<close>

lemma forward_opObject:
  "forward cfg (opObject x) =
     (case x of
        Add v \<Rightarrow> [SADD (key cfg) [JSON_stringify v]]
      | Remove v \<Rightarrow> [SREM (key cfg) [JSON_stringify v]]
      | Clear \<Rightarrow> [DEL (key cfg)]
      | AddAll vs \<Rightarrow> [SADD (key cfg) (map JSON_stringify vs)]
      | ReplaceAll vs \<Rightarrow> [MULTI [DEL (key cfg), SADD (key cfg) (map JSON_stringify vs)]])
     @ [PUBLISH (updatesChan cfg) (JSON_stringify (opObject x))]"
  by (cases x) (simp_all add: forward_def storeWrite_def asLiveSetOp_def)

lemma dispatch_op_down:
  assumes "list_all (typeMatcher cfg) (valuesOf x)" and "\<not> pubIsUp st"
  shows "dispatch cfg (storeAction (opObject x)) st =
           Inr (st\<lparr>fanOutBuffer := fanOutBuffer st @ [opObject x],
                   getState := apply_op (getState st) x,
                   listeners := map (notify (apply_op (getState st) x)) (listeners st)\<rparr>)"
  using assms by (simp add: dispatch_def reducer_op fanOut_def del: opObject.simps)

lemma dispatch_op_up:
  assumes "list_all (typeMatcher cfg) (valuesOf x)" and "pubIsUp st" and "fanOutBuffer st = []"
  shows "dispatch cfg (storeAction (opObject x)) st =
           Inr (st\<lparr>sent := sent st @ forward cfg (opObject x),
                   getState := apply_op (getState st) x,
                   listeners := map (notify (apply_op (getState st) x)) (listeners st)\<rparr>)"
  using assms by (simp add: dispatch_def reducer_op fanOut_def del: opObject.simps)

lemma run_calls_down:
  assumes "list_all (\<lambda>x. list_all (typeMatcher cfg) (valuesOf x)) ops" and "\<not> pubIsUp st"
  shows "\<exists>st1. run cfg (map Call ops) st = Inr st1
            \<and> fanOutBuffer st1 = fanOutBuffer st @ map opObject ops
            \<and> sent st1 = sent st \<and> \<not> pubIsUp st1
            \<and> getState st1 = foldl apply_op (getState st) ops"
  using assms
proof (induction ops arbitrary: st)
  case Nil
  then show ?case by simp
next
  case (Cons x ops)
  let ?st = "st\<lparr>fanOutBuffer := fanOutBuffer st @ [opObject x],
                   getState := apply_op (getState st) x,
                   listeners := map (notify (apply_op (getState st) x)) (listeners st)\<rparr>"
  from Cons.prems have d: "on cfg (Call x) st = Inr ?st"
    by (simp add: dispatch_op_down del: opObject.simps)
  from Cons.prems have "list_all (\<lambda>x. list_all (typeMatcher cfg) (valuesOf x)) ops"
    and "\<not> pubIsUp ?st" by simp_all
  from Cons.IH [OF this] obtain st1 where "run cfg (map Call ops) ?st = Inr st1"
    "fanOutBuffer st1 = fanOutBuffer ?st @ map opObject ops" "sent st1 = sent ?st"
    "\<not> pubIsUp st1" "getState st1 = foldl apply_op (getState ?st) ops"
    by blast
  with d show ?case by simp
qed

lemma flush_up:
  assumes "list_all (\<lambda>x. list_all (typeMatcher cfg) (valuesOf x)) xs"
    and "pubIsUp st" and "fanOutBuffer st = []"
  shows "\<exists>st'. dispatchEach cfg (map (\<lambda>op. storeAction (FanOut op)) (map opObject xs)) st = Inr st'
            \<and> sent st' = sent st @ concat (map (\<lambda>x. forward cfg (opObject x)) xs)
            \<and> getState st' = getState st \<and> pubIsUp st' \<and> fanOutBuffer st' = []"
  using assms
proof (induction xs arbitrary: st)
  case Nil
  then show ?case by simp
next
  case (Cons x xs)
  let ?st = "st\<lparr>sent := sent st @ forward cfg (opObject x),
                   listeners := map (notify (getState st)) (listeners st)\<rparr>"
  from Cons.prems have "isOp cfg (opObject x) = Inr True"
    by (simp add: isOp_opObject del: opObject.simps)
  with Cons.prems have d: "dispatch cfg (storeAction (FanOut (opObject x))) st = Inr ?st"
    by (simp add: dispatch_def reducer_FanOut fanOut_def del: opObject.simps)
  from Cons.prems have "list_all (\<lambda>x. list_all (typeMatcher cfg) (valuesOf x)) xs"
    "pubIsUp ?st" "fanOutBuffer ?st = []" by simp_all
  from Cons.IH [OF this] obtain st' where
    "dispatchEach cfg (map (\<lambda>op. storeAction (FanOut op)) (map opObject xs)) ?st = Inr st'"
    "sent st' = sent ?st @ concat (map (\<lambda>x. forward cfg (opObject x)) xs)"
    "getState st' = getState ?st" "pubIsUp st'" "fanOutBuffer st' = []"
    by blast
  with d show ?case by (simp del: opObject.simps)
qed

text \<open>
  Claim C3. After a failure event of the publish connection, the operations the
  application issues are appended to the fan-out buffer in the order issued and nothing
  is sent. On \<open>ready\<close> the whole buffer is flushed, oldest first: for each buffered
  operation, once, the write to the shared set that belongs to its variant (\<open>sadd\<close>,
  \<open>srem\<close>, \<open>del\<close>, \<open>sadd\<close> of all values, \<open>multi\<close> of \<open>del\<close> and \<open>sadd\<close>) and then the
  \<open>publish\<close> of the serialized operation; the buffer is empty afterwards, the set is not
  changed by the flush, and an operation issued after that is forwarded behind all of
  them.
\<close>

theorem outbound_queue_fifo:
  assumes "fanOutBuffer st0 = map opObject pend"
    and "list_all (\<lambda>x. list_all (typeMatcher cfg) (valuesOf x)) (pend @ ops @ [y])"
  shows "\<exists>st st1 st2 st3.
           on cfg (PubFail e) st0 = Inr st
         \<and> \<not> pubIsUp st \<and> fanOutBuffer st = map opObject pend \<and> sent st = sent st0
         \<and> run cfg (map Call ops) st = Inr st1
         \<and> \<not> pubIsUp st1 \<and> fanOutBuffer st1 = map opObject (pend @ ops) \<and> sent st1 = sent st0
         \<and> on cfg PubReady st1 = Inr st2
         \<and> pubIsUp st2 \<and> fanOutBuffer st2 = [] \<and> getState st2 = getState st1
         \<and> sent st2 = sent st0 @ concat (map
               (\<lambda>x. (case x of
                        Add v \<Rightarrow> [SADD (key cfg) [JSON_stringify v]]
                      | Remove v \<Rightarrow> [SREM (key cfg) [JSON_stringify v]]
                      | Clear \<Rightarrow> [DEL (key cfg)]
                      | AddAll vs \<Rightarrow> [SADD (key cfg) (map JSON_stringify vs)]
                      | ReplaceAll vs \<Rightarrow>
                          [MULTI [DEL (key cfg), SADD (key cfg) (map JSON_stringify vs)]])
                     @ [PUBLISH (updatesChan cfg) (JSON_stringify (opObject x))])
               (pend @ ops))
         \<and> on cfg (Call y) st2 = Inr st3
         \<and> sent st3 = sent st2
             @ (case y of
                  Add v \<Rightarrow> [SADD (key cfg) [JSON_stringify v]]
                | Remove v \<Rightarrow> [SREM (key cfg) [JSON_stringify v]]
                | Clear \<Rightarrow> [DEL (key cfg)]
                | AddAll vs \<Rightarrow> [SADD (key cfg) (map JSON_stringify vs)]
                | ReplaceAll vs \<Rightarrow>
                    [MULTI [DEL (key cfg), SADD (key cfg) (map JSON_stringify vs)]])
             @ [PUBLISH (updatesChan cfg) (JSON_stringify (opObject y))]"
proof -
  let ?st = "st0\<lparr>pubIsUp := False\<rparr>"
  from assms(2) have vp: "list_all (\<lambda>x. list_all (typeMatcher cfg) (valuesOf x)) pend"
    and vo: "list_all (\<lambda>x. list_all (typeMatcher cfg) (valuesOf x)) ops"
    and vy: "list_all (typeMatcher cfg) (valuesOf y)"
    by simp_all
  have f: "on cfg (PubFail e) st0 = Inr ?st" by simp
  have d: "\<not> pubIsUp ?st" by simp
  from run_calls_down [OF vo d] obtain st1 where
    r: "run cfg (map Call ops) ?st = Inr st1"
    and b: "fanOutBuffer st1 = map opObject (pend @ ops)"
    and s: "sent st1 = sent st0" and d1: "\<not> pubIsUp st1"
    using assms(1) by auto
  from vp vo have v: "list_all (\<lambda>x. list_all (typeMatcher cfg) (valuesOf x)) (pend @ ops)"
    by simp
  from flush_up [OF v, of "st1\<lparr>pubIsUp := True, fanOutBuffer := []\<rparr>"] obtain st2 where
    p: "on cfg PubReady st1 = Inr st2"
    and s2: "sent st2 = sent st1 @ concat (map (\<lambda>x. forward cfg (opObject x)) (pend @ ops))"
    and g: "getState st2 = getState st1" and u: "pubIsUp st2" and e: "fanOutBuffer st2 = []"
    using b by (auto simp: flushFanOutBuffer_def simp del: opObject.simps)
  let ?st3 = "st2\<lparr>sent := sent st2 @ forward cfg (opObject y),
                   getState := apply_op (getState st2) y,
                   listeners := map (notify (apply_op (getState st2) y)) (listeners st2)\<rparr>"
  have c: "on cfg (Call y) st2 = Inr ?st3"
    using dispatch_op_up [OF vy u e] by simp
  have s3: "sent ?st3 = sent st2 @ forward cfg (opObject y)" by simp
  show ?thesis
    apply (rule exI [of _ ?st], rule exI [of _ st1], rule exI [of _ st2], rule exI [of _ ?st3])
    using f r b s d1 p u e g c assms(1)
    apply (simp only: s2 s3 forward_opObject)
    apply simp
    done
qed


theorem outbound_queue_fifo_witness:
  "fanOutBuffer ((createLiveStore (numbersConfig ''k''))\<lparr>pubIsUp := True\<rparr>) = map opObject []
   \<and> list_all (\<lambda>x. list_all (typeMatcher (numbersConfig ''k'')) (valuesOf x))
         ([] @ [Add (JNum 10), Remove (JNum 3)] @ [Clear])
   \<and> (\<exists>st st1 st2 st3.
           on (numbersConfig ''k'') (PubFail Error)
              ((createLiveStore (numbersConfig ''k''))\<lparr>pubIsUp := True\<rparr>) = Inr st
         \<and> \<not> pubIsUp st
         \<and> run (numbersConfig ''k'') (map Call [Add (JNum 10), Remove (JNum 3)]) st = Inr st1
         \<and> fanOutBuffer st1 = [opObject (Add (JNum 10)), opObject (Remove (JNum 3))]
         \<and> sent st1 = [SUBSCRIBE ''k'']
         \<and> on (numbersConfig ''k'') PubReady st1 = Inr st2
         \<and> fanOutBuffer st2 = []
         \<and> getState st2 = {JNum 10}
         \<and> sent st2 = [SUBSCRIBE ''k'',
                        SADD ''k'' [Some (TNum 10)],
                        PUBLISH ''k'' (Some (TObj [(''_tag'', TStr ''Add''), (''value'', TNum 10)])),
                        SREM ''k'' [Some (TNum 3)],
                        PUBLISH ''k'' (Some (TObj [(''_tag'', TStr ''Remove''), (''value'', TNum 3)]))]
         \<and> on (numbersConfig ''k'') (Call Clear) st2 = Inr st3
         \<and> sent st3 = sent st2 @ [DEL ''k'', PUBLISH ''k'' (Some (TObj [(''_tag'', TStr ''Clear'')]))])"
proof -
  let ?c = "numbersConfig ''k''"
  let ?s = "(createLiveStore ?c)\<lparr>pubIsUp := True\<rparr>"
  have a: "fanOutBuffer ?s = map opObject []"
    by (simp add: createLiveStore_def)
  have b: "list_all (\<lambda>x. list_all (typeMatcher ?c) (valuesOf x))
             ([] @ [Add (JNum 10), Remove (JNum 3)] @ [Clear])"
    by (simp add: numbersConfig_def isNumber_def)
  from outbound_queue_fifo [OF a b, of Error] obtain st st1 st2 st3 where
    f: "on ?c (PubFail Error) ?s = Inr st" "\<not> pubIsUp st"
    and r: "run ?c (map Call [Add (JNum 10), Remove (JNum 3)]) st = Inr st1"
      "fanOutBuffer st1 = map opObject ([] @ [Add (JNum 10), Remove (JNum 3)])"
      "sent st1 = sent ?s"
    and p: "on ?c PubReady st1 = Inr st2" "fanOutBuffer st2 = []" "getState st2 = getState st1"
      "sent st2 = sent ?s @ concat (map
               (\<lambda>x. (case x of
                        Add v \<Rightarrow> [SADD (key ?c) [JSON_stringify v]]
                      | Remove v \<Rightarrow> [SREM (key ?c) [JSON_stringify v]]
                      | Clear \<Rightarrow> [DEL (key ?c)]
                      | AddAll vs \<Rightarrow> [SADD (key ?c) (map JSON_stringify vs)]
                      | ReplaceAll vs \<Rightarrow>
                          [MULTI [DEL (key ?c), SADD (key ?c) (map JSON_stringify vs)]])
                     @ [PUBLISH (updatesChan ?c) (JSON_stringify (opObject x))])
               ([] @ [Add (JNum 10), Remove (JNum 3)]))"
    and c: "on ?c (Call Clear) st2 = Inr st3"
      "sent st3 = sent st2
             @ (case Clear :: jsval LiveSetOp of
                  Add v \<Rightarrow> [SADD (key ?c) [JSON_stringify v]]
                | Remove v \<Rightarrow> [SREM (key ?c) [JSON_stringify v]]
                | Clear \<Rightarrow> [DEL (key ?c)]
                | AddAll vs \<Rightarrow> [SADD (key ?c) (map JSON_stringify vs)]
                | ReplaceAll vs \<Rightarrow>
                    [MULTI [DEL (key ?c), SADD (key ?c) (map JSON_stringify vs)]])
             @ [PUBLISH (updatesChan ?c) (JSON_stringify (opObject Clear))]"
    by blast
  from f(1) have st: "st = (createLiveStore ?c)\<lparr>pubIsUp := False\<rparr>" by simp
  have g: "getState st1 = {JNum 10}"
    using r(1) unfolding st by (simp add: store_defs matcher_defs) (auto simp: createLiveStore_def)
  have k: "key ?c = ''k''" "updatesChan ?c = ''k''" "sent ?s = [SUBSCRIBE ''k'']"
    by (simp_all add: numbersConfig_def createLiveStore_def)
  show ?thesis
    apply (intro conjI a b)
    apply (rule exI [of _ st], rule exI [of _ st1], rule exI [of _ st2], rule exI [of _ st3])
    using f r p c g k apply simp
    done
qed

section \<open>Callbacks for the first seed load\<close>

lemma liveSetRun_snoc:
  "liveSetRun cfg (evs @ [e]) r0 =
     (case liveSetRun cfg evs r0 of Inl x \<Rightarrow> Inl x | Inr r \<Rightarrow> liveSetOn cfg e r)"
  by (induction evs arbitrary: r0) (auto split: sum.splits)

lemma registered_append: "registered (xs @ ys) = registered xs @ registered ys"
  by (induction xs rule: registered.induct) simp_all

lemma registered_snoc:
  "registered (evs @ [OnMembersInit cb]) = registered evs @ [cb]"
  "registered (evs @ [Store e]) = registered evs"
  by (simp_all add: registered_append)

lemma count_list_append: "count_list (xs @ ys) x = count_list xs x + count_list ys x"
  by (induction xs) simp_all

lemma map_fst_pair: "map (fst \<circ> (\<lambda>cb. (cb, s))) cbs = cbs"
  by (induction cbs) simp_all

lemma initInv_new: "initInv [] (newRedisLiveSet cfg)"
  by (simp add: initInv_def newRedisLiveSet_def)

lemma initInv_register:
  assumes "initInv evs r"
  shows "initInv (evs @ [OnMembersInit cb]) (onMembersInit cb r)"
  using assms
  by (cases "membersInitDone r")
     (simp_all add: initInv_def onMembersInit_def registered_snoc count_list_append)

lemma initInv_store:
  assumes "initInv evs r" and "onWithHook cfg e r = Inr r'"
  shows "initInv (evs @ [Store e]) r'"
proof -
  from assms(2) obtain s where s: "on cfg e (store r) = Inr s"
    and r': "r' = (if seedLoaded e then onMembersLoaded (r\<lparr>store := s\<rparr>) else r\<lparr>store := s\<rparr>)"
    by (auto simp: onWithHook_def split: sum.splits)
  show ?thesis
  proof (cases "seedLoaded e")
    case False
    have "(\<exists>a. (a = e \<or> Store a \<in> set evs) \<and> seedLoaded a)
            = (\<exists>a. Store a \<in> set evs \<and> seedLoaded a)"
      using False by blast
    with False r' assms(1) show ?thesis
      by (simp add: initInv_def registered_snoc)
  next
    case True
    have ex: "\<exists>a. (a = e \<or> Store a \<in> set evs) \<and> seedLoaded a"
      using True by blast
    show ?thesis
    proof (cases "membersInitDone r")
      case True
      with \<open>seedLoaded e\<close> r' assms(1) ex show ?thesis
        by (simp add: initInv_def registered_snoc onMembersLoaded_def)
    next
      case False
      with \<open>seedLoaded e\<close> r' assms(1) ex show ?thesis
        by (simp add: initInv_def registered_snoc onMembersLoaded_def map_fst_pair)
    qed
  qed
qed

lemma liveSetRun_initInv:
  "liveSetRun cfg evs (newRedisLiveSet cfg) = Inr r \<Longrightarrow> initInv evs r"
proof (induction evs arbitrary: r rule: rev_induct)
  case Nil
  with initInv_new [of cfg] show ?case by auto
next
  case (snoc e evs)
  from snoc.prems obtain r1 where r1: "liveSetRun cfg evs (newRedisLiveSet cfg) = Inr r1"
    and st: "liveSetOn cfg e r1 = Inr r"
    by (auto simp: liveSetRun_snoc split: sum.splits)
  from snoc.IH [OF r1] have i: "initInv evs r1" .
  show ?case
  proof (cases e)
    case (Store x)
    with st have "onWithHook cfg x r1 = Inr r" by simp
    from initInv_store [OF i this] Store show ?thesis by simp
  next
    case (OnMembersInit cb)
    with st have "r = onMembersInit cb r1" by simp
    with initInv_register [OF i, of cb] OnMembersInit show ?thesis by simp
  qed
qed

text \<open>
  Claim C8. After any sequence of events that the live set handled, a callback registered
  with \<open>onMembersInit\<close> has been invoked once per registration if a seed load has
  completed, and not at all otherwise. Every invocation is one of two: a registration
  made after the first seed load completed invokes the callback at once, with the
  current set; the completion of the first seed load invokes the callbacks registered
  until then, each once, in the order of registration, with the set as the seed load
  left it. A later seed load, and every other event of the store, invokes nothing.
\<close>

theorem members_init_exactly_once:
  assumes "liveSetRun cfg evs (newRedisLiveSet cfg) = Inr r"
  shows "membersInitDone r = (\<exists>e. Store e \<in> set evs \<and> seedLoaded e)
       \<and> (\<forall>cb. count_list (map fst (initCalled r)) cb
                 = (if membersInitDone r then count_list (registered evs) cb else 0))
       \<and> (\<forall>cb. liveSetOn cfg (OnMembersInit cb) r =
                 Inr (if membersInitDone r
                      then r\<lparr>initCalled := initCalled r @ [(cb, getState (store r))]\<rparr>
                      else r\<lparr>membersInitCallbacks := registered evs @ [cb]\<rparr>))
       \<and> (\<forall>e r'. liveSetOn cfg (Store e) r = Inr r' \<longrightarrow>
                 on cfg e (store r) = Inr (store r')
               \<and> initCalled r' =
                   (if seedLoaded e \<and> \<not> membersInitDone r
                    then map (\<lambda>cb. (cb, getState (store r'))) (registered evs)
                    else initCalled r)
               \<and> membersInitDone r' = (membersInitDone r \<or> seedLoaded e))"
proof (intro conjI allI impI)
  from liveSetRun_initInv [OF assms] have i: "initInv evs r" .
  from i show "membersInitDone r = (\<exists>e. Store e \<in> set evs \<and> seedLoaded e)"
    by (simp add: initInv_def)
  fix cb
  from i show "count_list (map fst (initCalled r)) cb
           = (if membersInitDone r then count_list (registered evs) cb else 0)"
    by (simp add: initInv_def split: if_splits)
  from i show "liveSetOn cfg (OnMembersInit cb) r =
           Inr (if membersInitDone r
                then r\<lparr>initCalled := initCalled r @ [(cb, getState (store r))]\<rparr>
                else r\<lparr>membersInitCallbacks := registered evs @ [cb]\<rparr>)"
    by (simp add: initInv_def onMembersInit_def split: if_splits)
  fix e r'
  assume "liveSetOn cfg (Store e) r = Inr r'"
  then obtain s where s: "on cfg e (store r) = Inr s"
    and r': "r' = (if seedLoaded e then onMembersLoaded (r\<lparr>store := s\<rparr>) else r\<lparr>store := s\<rparr>)"
    by (auto simp: onWithHook_def split: sum.splits)
  from i s r' show "on cfg e (store r) = Inr (store r')"
    by (simp add: initInv_def onMembersLoaded_def split: if_splits)
  from i s r' show "initCalled r' =
               (if seedLoaded e \<and> \<not> membersInitDone r
                then map (\<lambda>cb. (cb, getState (store r'))) (registered evs)
                else initCalled r)"
    by (simp add: initInv_def onMembersLoaded_def split: if_splits)
  from i s r' show "membersInitDone r' = (membersInitDone r \<or> seedLoaded e)"
    by (simp add: initInv_def onMembersLoaded_def split: if_splits)
qed

theorem members_init_exactly_once_witness:
  "\<exists>r1 r2 r3.
       liveSetRun (numbersConfig ''k'')
         [OnMembersInit 1, Store (Subscribed ''k''), OnMembersInit 2]
         (newRedisLiveSet (numbersConfig ''k'')) = Inr r1
     \<and> \<not> membersInitDone r1 \<and> initCalled r1 = []
     \<and> liveSetOn (numbersConfig ''k'')
         (Store (SmembersReply False (RMulti [RBulk (Some (TNum 1)), RBulk (Some (TNum 2))])))
         r1 = Inr r2
     \<and> membersInitDone r2
     \<and> initCalled r2 = [(1, {JNum 1, JNum 2}), (2, {JNum 1, JNum 2})]
     \<and> liveSetRun (numbersConfig ''k'')
         [Store (Call (Add (JNum 5))), Store (Subscribed ''k''),
          Store (SmembersReply False (RMulti []))] r2 = Inr r3
     \<and> initCalled r3 = initCalled r2
     \<and> liveSetOn (numbersConfig ''k'') (OnMembersInit 3) r3
         = Inr (r3\<lparr>initCalled := [(1, {JNum 1, JNum 2}), (2, {JNum 1, JNum 2}), (3, {})]\<rparr>)"
proof -
  let ?c = "numbersConfig ''k''"
  let ?e1 = "[OnMembersInit 1, Store (Subscribed ''k''), OnMembersInit 2]"
  let ?e = "SmembersReply False (RMulti [RBulk (Some (TNum 1)), RBulk (Some (TNum 2))])"
  let ?e3 = "[Store (Call (Add (JNum 5))), Store (Subscribed ''k''),
          Store (SmembersReply False (RMulti []))]"
  have "\<exists>r1. liveSetRun ?c ?e1 (newRedisLiveSet ?c) = Inr r1"
    by (simp add: newRedisLiveSet_def onWithHook_def onMembersInit_def seedLoaded_def
        numbersConfig_def)
  then obtain r1 where r1: "liveSetRun ?c ?e1 (newRedisLiveSet ?c) = Inr r1" by blast
  have n1: "\<not> (\<exists>e. Store e \<in> set ?e1 \<and> seedLoaded e)"
    by (simp add: seedLoaded_def)
  from members_init_exactly_once [OF r1] n1
  have d1: "\<not> membersInitDone r1"
    and c1: "\<forall>cb. count_list (map fst (initCalled r1)) cb = 0"
    and s1: "\<forall>e r'. liveSetOn ?c (Store e) r1 = Inr r' \<longrightarrow>
                 on ?c e (store r1) = Inr (store r')
               \<and> initCalled r' =
                   (if seedLoaded e \<and> \<not> membersInitDone r1
                    then map (\<lambda>cb. (cb, getState (store r'))) (registered ?e1)
                    else initCalled r1)
               \<and> membersInitDone r' = (membersInitDone r1 \<or> seedLoaded e)"
    by simp_all
  have i1: "initCalled r1 = []"
  proof (cases "initCalled r1")
    case (Cons a as)
    with c1 have "count_list (map fst (a # as)) (fst a) = 0" by metis
    then show ?thesis by simp
  qed simp
  have "\<exists>r2. liveSetOn ?c (Store ?e) r1 = Inr r2 \<and> getState (store r2) = {JNum 1, JNum 2}"
    using r1
    by (simp add: newRedisLiveSet_def onWithHook_def onMembersInit_def seedLoaded_def
        onMembersLoaded_def store_defs matcher_defs)
      (auto simp: createLiveStore_def seedLoaded_def onMembersLoaded_def)
  then obtain r2 where r2: "liveSetOn ?c (Store ?e) r1 = Inr r2"
    and g2: "getState (store r2) = {JNum 1, JNum 2}" by blast
  from s1 r2 d1 g2 have d2: "membersInitDone r2"
    and i2: "initCalled r2 = [(1, {JNum 1, JNum 2}), (2, {JNum 1, JNum 2})]"
    by (simp_all add: seedLoaded_def)
  have "\<exists>r3. liveSetRun ?c ?e3 r2 = Inr r3
            \<and> liveSetRun ?c (?e1 @ Store ?e # ?e3) (newRedisLiveSet ?c) = Inr r3
            \<and> getState (store r3) = {} \<and> initCalled r3 = initCalled r2"
    using r1 r2
    by (simp add: newRedisLiveSet_def onWithHook_def onMembersInit_def seedLoaded_def
        onMembersLoaded_def store_defs matcher_defs)
      (auto simp: createLiveStore_def seedLoaded_def onMembersLoaded_def)
  then obtain r3 where r3: "liveSetRun ?c ?e3 r2 = Inr r3"
    and f3: "liveSetRun ?c (?e1 @ Store ?e # ?e3) (newRedisLiveSet ?c) = Inr r3"
    and g3: "getState (store r3) = {}" and i3: "initCalled r3 = initCalled r2" by blast
  have n3: "\<exists>e. Store e \<in> set (?e1 @ Store ?e # ?e3) \<and> seedLoaded e"
    by (rule exI [of _ ?e]) (simp add: seedLoaded_def)
  from members_init_exactly_once [OF f3] n3
  have d3: "membersInitDone r3"
    and s3: "\<forall>cb. liveSetOn ?c (OnMembersInit cb) r3 =
                 Inr (if membersInitDone r3
                      then r3\<lparr>initCalled := initCalled r3 @ [(cb, getState (store r3))]\<rparr>
                      else r3\<lparr>membersInitCallbacks := registered (?e1 @ Store ?e # ?e3) @ [cb]\<rparr>)"
    by blast+
  from s3 d3 g3 i3 i2
  have l3: "liveSetOn ?c (OnMembersInit 3) r3
         = Inr (r3\<lparr>initCalled := [(1, {JNum 1, JNum 2}), (2, {JNum 1, JNum 2}), (3, {})]\<rparr>)"
    by simp
  show ?thesis
    apply (rule exI [of _ r1], rule exI [of _ r2], rule exI [of _ r3])
    apply (intro conjI r1 d1 i1 r2 d2 i2 r3 i3 l3)
    done
qed

end
